theory Spec2Isabelle
  imports Complex_Main "HOL-Library.Sublist"
begin

section \<open>Strings and paths\<close>

text \<open>
  A path is the list of its components below the root directory: every path of the model
  is absolute and resolved (no symbolic links, no \<^verbatim>\<open>..\<close> component), so
  \<^verbatim>\<open>Path.resolve\<close> changes nothing and the empty list is the root.  Joining follows
  \<^verbatim>\<open>PurePosixPath\<close>: a segment is cut at its slashes, empty and \<^verbatim>\<open>.\<close> pieces are
  dropped, and a segment that starts with a slash replaces what came before it.
\<close>

type_synonym path = "string list"

fun split_sep :: "string \<Rightarrow> string list" where
  "split_sep [] = [[]]"
| "split_sep (c # cs) =
     (if c = CHR ''/'' then [] # split_sep cs
      else (c # hd (split_sep cs)) # tl (split_sep cs))"

definition parse_parts :: "string \<Rightarrow> path" where
  "parse_parts s = filter (\<lambda>x. x \<noteq> [] \<and> x \<noteq> ''.'') (split_sep s)"

definition is_absolute :: "string \<Rightarrow> bool" where
  "is_absolute s = (case s of [] \<Rightarrow> False | c # _ \<Rightarrow> c = CHR ''/'')"

text \<open>\<^verbatim>\<open>p / s\<close> and \<^verbatim>\<open>p.joinpath(*segs)\<close>.\<close>

definition join :: "path \<Rightarrow> string \<Rightarrow> path" where
  "join p s = (if is_absolute s then parse_parts s else p @ parse_parts s)"

definition joinpath :: "path \<Rightarrow> string list \<Rightarrow> path" where
  "joinpath p segs = foldl join p segs"

text \<open>\<^verbatim>\<open>Path(s)\<close> and \<^verbatim>\<open>str(p)\<close> (also \<^verbatim>\<open>p.as_posix()\<close>).\<close>

definition Path :: "string \<Rightarrow> path" where
  "Path s = parse_parts s"

definition str :: "path \<Rightarrow> string" where
  "str p = (if p = [] then ''/'' else concat (map (\<lambda>c. ''/'' @ c) p))"

definition resolve :: "path \<Rightarrow> path" where
  "resolve p = p"

text \<open>\<^verbatim>\<open>p.name\<close>, \<^verbatim>\<open>p.parent\<close>, \<^verbatim>\<open>p.suffix\<close> and \<^verbatim>\<open>p.stem\<close>: the suffix starts at the
  last dot of the name, unless that dot is the first or the last character.\<close>

definition path_name :: "path \<Rightarrow> string" where
  "path_name p = (if p = [] then [] else last p)"

definition path_parent :: "path \<Rightarrow> path" where
  "path_parent p = butlast p"

fun rfind :: "char \<Rightarrow> string \<Rightarrow> nat option" where
  "rfind c [] = None"
| "rfind c (x # xs) =
     (case rfind c xs of Some i \<Rightarrow> Some (Suc i)
      | None \<Rightarrow> if x = c then Some 0 else None)"

definition name_suffix :: "string \<Rightarrow> string" where
  "name_suffix n =
     (case rfind (CHR ''.'') n of
        Some i \<Rightarrow> if 0 < i \<and> i + 1 < length n then drop i n else []
      | None \<Rightarrow> [])"

definition name_stem :: "string \<Rightarrow> string" where
  "name_stem n =
     (case rfind (CHR ''.'') n of
        Some i \<Rightarrow> if 0 < i \<and> i + 1 < length n then take i n else n
      | None \<Rightarrow> n)"

definition path_suffix :: "path \<Rightarrow> string" where
  "path_suffix p = name_suffix (path_name p)"

definition path_stem :: "path \<Rightarrow> string" where
  "path_stem p = name_stem (path_name p)"

text \<open>\<^verbatim>\<open>s.lower()\<close> on ASCII letters, \<^verbatim>\<open>s.startswith(t)\<close>, and the decimal numerals of
  \<^verbatim>\<open>f"{i}"\<close>, \<^verbatim>\<open>f"{i:02d}"\<close> and \<^verbatim>\<open>f"{i:04d}"\<close>.\<close>

definition lower_char :: "char \<Rightarrow> char" where
  "lower_char c =
     (case map_of (zip ''ABCDEFGHIJKLMNOPQRSTUVWXYZ'' ''abcdefghijklmnopqrstuvwxyz'') c of
        Some l \<Rightarrow> l | None \<Rightarrow> c)"

definition lower :: "string \<Rightarrow> string" where
  "lower s = map lower_char s"

definition startswith :: "string \<Rightarrow> string \<Rightarrow> bool" where
  "startswith s t = prefix t s"

definition digit_char :: "nat \<Rightarrow> char" where
  "digit_char d = ''0123456789'' ! d"

fun digits :: "nat \<Rightarrow> string" where
  "digits n = (if n < 10 then [digit_char n] else digits (n div 10) @ [digit_char (n mod 10)])"

declare digits.simps [simp del]

definition zero_pad :: "nat \<Rightarrow> nat \<Rightarrow> string" where
  "zero_pad w n = replicate (w - length (digits n)) (CHR ''0'') @ digits n"

section \<open>Data model\<close>

text \<open>The dataclasses of \<^verbatim>\<open>rules.py\<close> and \<^verbatim>\<open>utils.py\<close>.  A size bucket is a dictionary
  read with \<^verbatim>\<open>get\<close>: either key may be missing.  \<^verbatim>\<open>max_mb\<close> holds the value of
  \<^verbatim>\<open>float(max_mb)\<close>.  Two fields are renamed, since a field name can be declared once:
  \<^verbatim>\<open>folder\<close> of a bucket is \<open>bucket_folder\<close>, and \<^verbatim>\<open>action\<close> of a \<^verbatim>\<open>MoveResult\<close> is
  \<open>act\<close>.  The two ordered dictionaries \<^verbatim>\<open>by_glob\<close> and \<^verbatim>\<open>by_mime\<close> are lists of items.\<close>

record DateRule =
  enabled :: bool
  base_folder :: string
  group :: string

record DuplicateRule =
  action :: string
  folder :: string

record bucket =
  max_mb :: "real option"
  bucket_folder :: "string option"

record Rules =
  unknown_folder :: string
  exclude_dirs :: "string list"
  exclude_hidden :: bool
  prefer_extension_over_glob :: bool
  by_extension :: "string \<rightharpoonup> string"
  by_glob :: "(string \<times> string) list"
  by_mime :: "(string \<times> string) list"
  by_date :: DateRule
  size_buckets :: "bucket list"
  duplicates :: DuplicateRule

record MoveResult =
  src :: string
  dst :: string
  act :: string

datatype error =
    FileNotFoundError
  | RuntimeError string
  | ValueError
  | IsADirectoryError
  | FileExistsError
  | NotADirectoryError
  | PermissionError
  | OSError
  | JSONDecodeError

section \<open>The file system\<close>

text \<open>
  The disk is a finite listing of paths with their nodes.  A regular file carries what the
  program reads from it: its size in bytes, its modification time (seconds since the
  epoch), the SHA-256 hex digest of its bytes, and, when its text is a JSON document, the
  list under the key \<^verbatim>\<open>operations\<close>.  An OS call fails where the nodes on the disk make
  it fail: a read of a missing path or of a directory, a directory to be made where a
  regular file is, a rename of a missing path or into itself, a text written over a
  directory.  Failures that come from permissions, space or devices are left out, except
  that of \<^verbatim>\<open>os.link\<close>, which the program handles.
\<close>

record calendar =
  year :: nat
  month :: nat
  day :: nat

record fileinfo =
  st_size :: nat
  st_mtime :: real
  sha256 :: string
  operations :: "MoveResult list option"

datatype node = Dir | File fileinfo

type_synonym fs = "(path \<times> node) list"

text \<open>What the libraries decide: \<^verbatim>\<open>datetime.fromtimestamp\<close> (local time),
  \<^verbatim>\<open>mimetypes.guess_type\<close>, the verdict of \<^verbatim>\<open>PurePath.match\<close> on a pattern that has
  parts, whether \<^verbatim>\<open>os.link\<close> succeeds, and the size, time and digest of the text that
  \<^verbatim>\<open>json.dumps\<close> produces.\<close>

record env =
  fromtimestamp :: "real \<Rightarrow> calendar"
  guess_type :: "string \<Rightarrow> string option"
  glob_parts_match :: "path \<Rightarrow> string \<Rightarrow> bool"
  link_ok :: "path \<Rightarrow> path \<Rightarrow> bool"
  json_text_info :: "MoveResult list \<Rightarrow> fileinfo"

definition lookup :: "fs \<Rightarrow> path \<Rightarrow> node option" where
  "lookup disk p = (if p = [] then Some Dir else map_of disk p)"

definition path_exists :: "fs \<Rightarrow> path \<Rightarrow> bool" where
  "path_exists disk p = (lookup disk p \<noteq> None)"

definition is_dir :: "fs \<Rightarrow> path \<Rightarrow> bool" where
  "is_dir disk p = (lookup disk p = Some Dir)"

definition is_file :: "fs \<Rightarrow> path \<Rightarrow> bool" where
  "is_file disk p = (case lookup disk p of Some (File i) \<Rightarrow> True | _ \<Rightarrow> False)"

definition remove_entry :: "path \<Rightarrow> fs \<Rightarrow> fs" where
  "remove_entry p disk = filter (\<lambda>e. fst e \<noteq> p) disk"

definition put_entry :: "path \<Rightarrow> node \<Rightarrow> fs \<Rightarrow> fs" where
  "put_entry p n disk = remove_entry p disk @ [(p, n)]"

text \<open>\<^verbatim>\<open>os.stat\<close> of a file; the attributes of directories are not modelled.\<close>

definition stat :: "fs \<Rightarrow> path \<Rightarrow> error + fileinfo" where
  "stat disk p =
     (case lookup disk p of
        None \<Rightarrow> Inl FileNotFoundError
      | Some Dir \<Rightarrow> Inl IsADirectoryError
      | Some (File i) \<Rightarrow> Inr i)"

text \<open>\<^verbatim>\<open>utils.file_mtime\<close>, \<^verbatim>\<open>utils.hash_file\<close>, \<^verbatim>\<open>utils.ensure_dir\<close> and
  \<^verbatim>\<open>utils.within_dir\<close>.  \<^verbatim>\<open>mkdir(parents=True, exist_ok=True)\<close> raises
  \<^verbatim>\<open>FileExistsError\<close> when the path is a regular file and \<^verbatim>\<open>NotADirectoryError\<close> when an
  ancestor is one, in both cases before it makes any directory; otherwise it makes the
  missing ancestors and the directory.\<close>

definition file_mtime :: "fs \<Rightarrow> path \<Rightarrow> error + real" where
  "file_mtime disk p = (case stat disk p of Inl e \<Rightarrow> Inl e | Inr i \<Rightarrow> Inr (st_mtime i))"

definition hash_file :: "fs \<Rightarrow> path \<Rightarrow> error + string" where
  "hash_file disk p = (case stat disk p of Inl e \<Rightarrow> Inl e | Inr i \<Rightarrow> Inr (sha256 i))"

definition mkdirs :: "path list \<Rightarrow> fs \<Rightarrow> fs" where
  "mkdirs qs disk = foldl (\<lambda>d q. if path_exists d q then d else d @ [(q, Dir)]) disk qs"

definition ensure_dir :: "path \<Rightarrow> fs \<Rightarrow> error + fs" where
  "ensure_dir p disk =
     (case find (is_file disk) (prefixes p) of
        Some q \<Rightarrow> Inl (if q = p then FileExistsError else NotADirectoryError)
      | None \<Rightarrow> Inr (mkdirs (prefixes p) disk))"

definition within_dir :: "path \<Rightarrow> path \<Rightarrow> bool" where
  "within_dir child parent = prefix (resolve parent) (resolve child)"

text \<open>\<^verbatim>\<open>os.replace\<close> and \<^verbatim>\<open>shutil.move\<close> rename the entry and whatever lies below it;
  they fail on a missing source and on a target inside the source.  \<^verbatim>\<open>shutil.copy2\<close> and
  \<^verbatim>\<open>os.link\<close> put the source's node under the new name.  The program calls all four
  with a target that is free and whose parent it has just made.\<close>

definition rename_entries :: "path \<Rightarrow> path \<Rightarrow> fs \<Rightarrow> fs" where
  "rename_entries a b disk =
     map (\<lambda>(p, n). (if prefix a p then b @ drop (length a) p else p, n)) (remove_entry b disk)"

definition os_replace :: "path \<Rightarrow> path \<Rightarrow> fs \<Rightarrow> error + fs" where
  "os_replace a b disk =
     (if \<not> path_exists disk a then Inl FileNotFoundError
      else if a = b then Inr disk
      else if prefix a b then Inl OSError
      else Inr (rename_entries a b disk))"

definition shutil_move :: "path \<Rightarrow> path \<Rightarrow> fs \<Rightarrow> error + fs" where
  "shutil_move a b disk = os_replace a b disk"

definition copy2 :: "path \<Rightarrow> path \<Rightarrow> fs \<Rightarrow> error + fs" where
  "copy2 a b disk =
     (case stat disk a of Inl e \<Rightarrow> Inl e | Inr i \<Rightarrow> Inr (put_entry b (File i) disk))"

definition os_link :: "env \<Rightarrow> path \<Rightarrow> path \<Rightarrow> fs \<Rightarrow> error + fs" where
  "os_link E a b disk =
     (case lookup disk a of
        None \<Rightarrow> Inl FileNotFoundError
      | Some Dir \<Rightarrow> Inl PermissionError
      | Some (File i) \<Rightarrow> if link_ok E a b then Inr (put_entry b (File i) disk) else Inl OSError)"

section \<open>Conflict naming (\<^verbatim>\<open>utils.next_nonconflicting_name\<close>)\<close>

text \<open>The name \<^verbatim>\<open>f"{stem}({i}){suffix}"\<close> and the path \<^verbatim>\<open>parent / f"{stem}({i}){suffix}"\<close>.\<close>

definition counter_name :: "string \<Rightarrow> string \<Rightarrow> nat \<Rightarrow> string" where
  "counter_name st sf i = st @ ''('' @ digits i @ '')'' @ sf"

definition candidate :: "path \<Rightarrow> nat \<Rightarrow> path" where
  "candidate target i =
     join (path_parent target) (counter_name (path_stem target) (path_suffix target) i)"

lemma split_sep_nonempty: "split_sep s \<noteq> []"
  by (induction s) auto

lemma split_sep_plain_prefix:
  "CHR ''/'' \<notin> set d \<Longrightarrow> split_sep (d @ b) = (d @ hd (split_sep b)) # tl (split_sep b)"
  using split_sep_nonempty [of b] by (induction d) auto

lemma split_sep_middle:
  "CHR ''/'' \<notin> set d \<Longrightarrow>
   split_sep (a @ d @ b) =
     butlast (split_sep a) @ [last (split_sep a) @ d @ hd (split_sep b)] @ tl (split_sep b)"
proof (induction a)
  case Nil
  then show ?case by (simp add: split_sep_plain_prefix)
next
  case (Cons c a)
  show ?case
  proof (cases "c = CHR ''/''")
    case True
    with Cons show ?thesis using split_sep_nonempty [of a] by simp
  next
    case False
    show ?thesis
    proof (cases "tl (split_sep a) = []")
      case True
      then have "split_sep a = [hd (split_sep a)]"
        using split_sep_nonempty [of a] by (cases "split_sep a") auto
      then have b: "butlast (split_sep a) = []" and l: "last (split_sep a) = hd (split_sep a)"
        by (metis butlast.simps(2), metis last.simps)
      with Cons False True show ?thesis by simp
    next
      case nt: False
      then obtain x y ys where a: "split_sep a = x # y # ys"
        by (cases "split_sep a"; cases "tl (split_sep a)") auto
      with Cons False show ?thesis by simp
    qed
  qed
qed

lemma digits_nonempty: "digits n \<noteq> []"
  by (subst digits.simps) simp

lemma digit_char_inj: "a < 10 \<Longrightarrow> b < 10 \<Longrightarrow> digit_char a = digit_char b \<Longrightarrow> a = b"
proof -
  assume a: "a < 10" and b: "b < 10" and e: "digit_char a = digit_char b"
  have d: "distinct ''0123456789''" by simp
  from a b e d show ?thesis
    unfolding digit_char_def by (simp add: nth_eq_iff_index_eq)
qed

lemma digit_char_plain: "d < 10 \<Longrightarrow> digit_char d \<in> set ''0123456789''"
  unfolding digit_char_def by (rule nth_mem) simp

lemma digits_plain: "set (digits n) \<subseteq> set ''0123456789''"
proof (induction n rule: digits.induct)
  case (1 n)
  show ?case
  proof (cases "n < 10")
    case True
    then show ?thesis using digit_char_plain [of n] by (subst digits.simps) simp
  next
    case False
    have "n mod 10 < 10" by simp
    then have "digit_char (n mod 10) \<in> set ''0123456789''" by (rule digit_char_plain)
    with False 1 show ?thesis by (subst digits.simps) simp
  qed
qed

lemma digits_inj: "digits n = digits m \<Longrightarrow> n = m"
proof (induction n arbitrary: m rule: digits.induct)
  case (1 n)
  show ?case
  proof (cases "n < 10")
    case n: True
    show ?thesis
    proof (cases "m < 10")
      case True
      with n 1(2) show ?thesis
        using digit_char_inj [of n m] by (simp add: digits.simps [of n] digits.simps [of m])
    next
      case False
      with n 1(2) show ?thesis
        using digits_nonempty [of "m div 10"]
        by (simp add: digits.simps [of n] digits.simps [of m])
    qed
  next
    case n: False
    show ?thesis
    proof (cases "m < 10")
      case True
      with n 1(2) show ?thesis
        using digits_nonempty [of "n div 10"]
        by (simp add: digits.simps [of n] digits.simps [of m])
    next
      case False
      with n 1(2) have e: "digits (n div 10) = digits (m div 10)"
        and l: "digit_char (n mod 10) = digit_char (m mod 10)"
        by (simp_all add: digits.simps [of n] digits.simps [of m])
      from 1(1) [OF n e] have "n div 10 = m div 10" .
      moreover from l have "n mod 10 = m mod 10"
        using digit_char_inj [of "n mod 10" "m mod 10"] by simp
      ultimately show ?thesis by (metis div_mult_mod_eq)
    qed
  qed
qed

lemma parse_parts_counter_name:
  "parse_parts (counter_name a b i) =
     filter (\<lambda>x. x \<noteq> [] \<and> x \<noteq> ''.'') (butlast (split_sep a))
     @ [last (split_sep a) @ ''('' @ digits i @ '')'' @ hd (split_sep b)]
     @ filter (\<lambda>x. x \<noteq> [] \<and> x \<noteq> ''.'') (tl (split_sep b))"
proof -
  have "CHR ''/'' \<notin> set (''('' @ digits i @ '')'')"
    using digits_plain [of i] by auto
  from split_sep_middle [OF this, of a b] show ?thesis
    by (simp add: parse_parts_def counter_name_def)
qed

lemma parse_parts_counter_name_inj:
  assumes "parse_parts (counter_name a b i) = parse_parts (counter_name a b j)"
  shows "i = j"
proof -
  from assms have "digits i = digits j"
    by (simp add: parse_parts_counter_name)
  then show ?thesis by (rule digits_inj)
qed

lemma is_absolute_counter_name:
  "is_absolute (counter_name a b i) = is_absolute (counter_name a b j)"
  by (cases a) (simp_all add: is_absolute_def counter_name_def)

lemma candidate_inj: "candidate target i = candidate target j \<Longrightarrow> i = j"
  using is_absolute_counter_name [of "path_stem target" "path_suffix target" i j]
  by (auto simp: candidate_def join_def split: if_splits dest: parse_parts_counter_name_inj)

lemma finite_taken_counters: "finite {j. path_exists disk (candidate target j)}"
proof -
  have "{j. path_exists disk (candidate target j)}
          \<subseteq> candidate target -` (insert [] (fst ` set disk))"
  proof
    fix j assume "j \<in> {j. path_exists disk (candidate target j)}"
    then have "candidate target j = [] \<or> map_of disk (candidate target j) \<noteq> None"
      by (auto simp: path_exists_def lookup_def split: if_splits)
    then have "candidate target j = [] \<or> candidate target j \<in> fst ` set disk"
      by (simp add: map_of_eq_None_iff)
    then show "j \<in> candidate target -` (insert [] (fst ` set disk))" by auto
  qed
  moreover have "finite (candidate target -` (insert [] (fst ` set disk)))"
    by (rule finite_vimageI) (auto simp: inj_on_def dest: candidate_inj)
  ultimately show ?thesis by (rule finite_subset)
qed

text \<open>The \<^verbatim>\<open>while True\<close> loop of \<^verbatim>\<open>next_nonconflicting_name\<close>, from counter \<open>i\<close>.  It ends
  because the disk is finite and the candidates are pairwise different.\<close>

function next_name_loop :: "fs \<Rightarrow> path \<Rightarrow> nat \<Rightarrow> path" where
  "next_name_loop disk target i =
     (if \<not> path_exists disk (candidate target i) then candidate target i
      else next_name_loop disk target (i + 1))"
  by pat_completeness auto
termination
proof (relation "measure (\<lambda>(disk, target, i). card {j. i \<le> j \<and> path_exists disk (candidate target j)})")
  show "wf (measure (\<lambda>(disk, target, i). card {j. i \<le> j \<and> path_exists disk (candidate target j)}))"
    by simp
next
  fix disk :: fs and target :: path and i :: nat
  assume "\<not> \<not> path_exists disk (candidate target i)"
  then have taken: "path_exists disk (candidate target i)" by simp
  let ?A = "{j. i \<le> j \<and> path_exists disk (candidate target j)}"
  let ?B = "{j. i + 1 \<le> j \<and> path_exists disk (candidate target j)}"
  have fin: "finite ?A"
    by (rule finite_subset [OF _ finite_taken_counters [of disk target]]) auto
  have "i \<in> ?A" "i \<notin> ?B" "?B \<subseteq> ?A" using taken by auto
  then have "?B \<subset> ?A" by blast
  with fin have "card ?B < card ?A" by (rule psubset_card_mono)
  then show "((disk, target, i + 1), (disk, target, i))
      \<in> measure (\<lambda>(disk, target, i). card {j. i \<le> j \<and> path_exists disk (candidate target j)})"
    by simp
qed

declare next_name_loop.simps [simp del]

definition next_nonconflicting_name :: "fs \<Rightarrow> path \<Rightarrow> path" where
  "next_nonconflicting_name disk target =
     (if \<not> path_exists disk target then target else next_name_loop disk target 1)"

lemma next_name_loop_free:
  "\<not> path_exists disk (candidate target i) \<Longrightarrow>
   next_name_loop disk target i = candidate target i"
  by (subst next_name_loop.simps) simp

lemma next_name_loop_taken:
  "path_exists disk (candidate target i) \<Longrightarrow>
   next_name_loop disk target i = next_name_loop disk target (Suc i)"
  by (subst next_name_loop.simps) simp

lemma next_name_loop_smallest:
  "\<exists>n\<ge>i. next_name_loop disk target i = candidate target n
      \<and> \<not> path_exists disk (candidate target n)
      \<and> (\<forall>k. i \<le> k \<and> k < n \<longrightarrow> path_exists disk (candidate target k))"
proof (induction disk target i rule: next_name_loop.induct)
  case (1 disk target i)
  show ?case
  proof (cases "path_exists disk (candidate target i)")
    case False
    then have "next_name_loop disk target i = candidate target i"
      by (subst next_name_loop.simps) simp
    with False show ?thesis by (intro exI [of _ i]) auto
  next
    case True
    then have step: "next_name_loop disk target i = next_name_loop disk target (i + 1)"
      by (subst next_name_loop.simps) simp
    from 1 True obtain n where n: "i + 1 \<le> n"
      "next_name_loop disk target (i + 1) = candidate target n"
      "\<not> path_exists disk (candidate target n)"
      "\<forall>k. i + 1 \<le> k \<and> k < n \<longrightarrow> path_exists disk (candidate target k)"
      by auto
    have "\<forall>k. i \<le> k \<and> k < n \<longrightarrow> path_exists disk (candidate target k)"
    proof (intro allI impI)
      fix k assume k: "i \<le> k \<and> k < n"
      show "path_exists disk (candidate target k)"
      proof (cases "k = i")
        case True
        with \<open>path_exists disk (candidate target i)\<close> show ?thesis by simp
      next
        case False
        with k have "i + 1 \<le> k \<and> k < n" by simp
        with n(4) show ?thesis by blast
      qed
    qed
    with n step show ?thesis by (intro exI [of _ n]) simp
  qed
qed

lemma lookup_root: "lookup disk [] = Some Dir"
  by (simp add: lookup_def)

lemma map_of_remove_entry:
  "map_of (remove_entry p disk) q = (if q = p then None else map_of disk q)"
  unfolding remove_entry_def by (induction disk) auto

lemma lookup_put_entry:
  "lookup (put_entry p n disk) q =
     (if q = [] then Some Dir else if q = p then Some n else lookup disk q)"
  by (simp add: lookup_def put_entry_def map_of_remove_entry map_add_def split: option.splits)

lemma lookup_remove_entry:
  "lookup (remove_entry p disk) q =
     (if q = [] then Some Dir else if q = p then None else lookup disk q)"
  by (simp add: lookup_def map_of_remove_entry)

lemma path_exists_put_entry:
  "path_exists (put_entry p n disk) q = (q = p \<or> path_exists disk q)"
  by (cases "q = []") (auto simp: path_exists_def lookup_put_entry lookup_root)

section \<open>Rule resolution (\<^verbatim>\<open>rules.py\<close>)\<close>

text \<open>\<^verbatim>\<open>PurePath.match\<close> raises \<^verbatim>\<open>ValueError("empty pattern")\<close> for a pattern without
  parts (\<^verbatim>\<open>""\<close>, \<^verbatim>\<open>"."\<close>, \<^verbatim>\<open>"./"\<close>); on any other pattern the library decides.\<close>

definition path_match :: "env \<Rightarrow> path \<Rightarrow> string \<Rightarrow> error + bool" where
  "path_match E p pat =
     (if parse_parts pat = [] \<and> \<not> is_absolute pat then Inl ValueError
      else Inr (glob_parts_match E p pat))"

text \<open>The two \<^verbatim>\<open>for\<close> loops of \<^verbatim>\<open>Rules.match_folder_for\<close>, over the items of
  \<^verbatim>\<open>by_glob\<close> and of \<^verbatim>\<open>by_mime\<close> in insertion order.\<close>

fun glob_loop :: "env \<Rightarrow> path \<Rightarrow> (string \<times> string) list \<Rightarrow> error + string option" where
  "glob_loop E p [] = Inr None"
| "glob_loop E p ((pat, fld) # rest) =
     (case path_match E p pat of
        Inl e \<Rightarrow> Inl e
      | Inr hit \<Rightarrow> if hit then Inr (Some fld) else glob_loop E p rest)"

fun mime_loop :: "string \<Rightarrow> (string \<times> string) list \<Rightarrow> string option" where
  "mime_loop mime [] = None"
| "mime_loop mime ((pre, fld) # rest) =
     (if startswith mime pre then Some fld else mime_loop mime rest)"

definition match_folder_for :: "env \<Rightarrow> Rules \<Rightarrow> path \<Rightarrow> error + string option" where
  "match_folder_for E rules p =
     (let ext = lower (path_suffix p) in
      case by_extension rules ext of
        Some fld \<Rightarrow> Inr (Some fld)
      | None \<Rightarrow>
          (case glob_loop E p (by_glob rules) of
             Inl e \<Rightarrow> Inl e
           | Inr (Some fld) \<Rightarrow> Inr (Some fld)
           | Inr None \<Rightarrow>
               (case guess_type E (str p) of
                  None \<Rightarrow> Inr None
                | Some mime \<Rightarrow>
                    if mime = [] then Inr None else Inr (mime_loop mime (by_mime rules)))))"

text \<open>\<^verbatim>\<open>size_bytes / (1024 * 1024)\<close> is the true division of two integers: the
  quotient rounded to the nearest double, ties to even.  The divisor is a power of two, so
  the result is the size rounded to 53 significant bits, over \<open>2\<^sup>2\<^sup>0\<close>; a size is below
  \<open>2\<^sup>6\<^sup>3\<close>, so nothing overflows.\<close>

fun bit_length :: "nat \<Rightarrow> nat" where
  "bit_length n = (if n = 0 then 0 else Suc (bit_length (n div 2)))"

declare bit_length.simps [simp del]

definition round_to_double :: "nat \<Rightarrow> nat" where
  "round_to_double n =
     (let e = bit_length n - 53; q = n div 2 ^ e; r = n mod 2 ^ e
      in if e = 0 then n
         else if 2 ^ e < 2 * r \<or> (2 * r = 2 ^ e \<and> odd q) then (q + 1) * 2 ^ e
         else q * 2 ^ e)"

definition true_div_mb :: "nat \<Rightarrow> real" where
  "true_div_mb size_bytes = real (round_to_double size_bytes) / (1024 * 1024)"

text \<open>The loop of \<^verbatim>\<open>Rules.match_size_bucket\<close>.\<close>

fun bucket_loop :: "real \<Rightarrow> bucket list \<Rightarrow> string option" where
  "bucket_loop mb [] = None"
| "bucket_loop mb (b # rest) =
     (case bucket_folder b of
        None \<Rightarrow> bucket_loop mb rest
      | Some fld \<Rightarrow>
          (case max_mb b of
             None \<Rightarrow> Some fld
           | Some m \<Rightarrow> if mb \<le> m then Some fld else bucket_loop mb rest))"

definition match_size_bucket :: "Rules \<Rightarrow> nat \<Rightarrow> string option" where
  "match_size_bucket rules size_bytes =
     (if size_buckets rules = [] then None
      else bucket_loop (true_div_mb size_bytes) (size_buckets rules))"

definition date_parts :: "env \<Rightarrow> Rules \<Rightarrow> real \<Rightarrow> string list" where
  "date_parts E rules ts =
     (let dt = fromtimestamp E ts in
      if group (by_date rules) = ''year'' then [zero_pad 4 (year dt)]
      else if group (by_date rules) = ''day''
        then [zero_pad 4 (year dt), zero_pad 2 (month dt), zero_pad 2 (day dt)]
      else [zero_pad 4 (year dt), zero_pad 2 (month dt)])"

section \<open>The organizer (\<^verbatim>\<open>organizer.py\<close>)\<close>

text \<open>\<^verbatim>\<open>folder = rules.match_folder_for(path); if not folder: folder = rules.unknown_folder\<close>:
  \<^verbatim>\<open>None\<close> and the empty string both count as no folder.\<close>

definition classification_folder :: "Rules \<Rightarrow> string option \<Rightarrow> string" where
  "classification_folder rules m =
     (case m of None \<Rightarrow> unknown_folder rules
      | Some fld \<Rightarrow> if fld = [] then unknown_folder rules else fld)"

definition compute_destination :: "env \<Rightarrow> fs \<Rightarrow> path \<Rightarrow> path \<Rightarrow> Rules \<Rightarrow> error + path" where
  "compute_destination E disk p dest_root rules =
     (case match_folder_for E rules p of
        Inl e \<Rightarrow> Inl e
      | Inr m \<Rightarrow>
          (let parts = [classification_folder rules m] in
           case (if enabled (by_date rules)
                 then (case file_mtime disk p of
                         Inl e \<Rightarrow> Inl e
                       | Inr ts \<Rightarrow>
                           Inr ([base_folder (by_date rules)] @ date_parts E rules ts @ parts))
                 else Inr parts) of
             Inl e \<Rightarrow> Inl e
           | Inr parts \<Rightarrow>
               (case stat disk p of
                  Inl e \<Rightarrow> Inl e
                | Inr i \<Rightarrow>
                    (let parts = (case match_size_bucket rules (st_size i) of
                                    None \<Rightarrow> parts
                                  | Some b \<Rightarrow> if b = [] then parts else [b] @ parts);
                         target_dir = joinpath dest_root parts
                     in Inr (join target_dir (path_name p))))))"

text \<open>\<^verbatim>\<open>_walk_files\<close>: the files below the root, in the order of the listing, without those
  under a pruned directory and, when hidden names are excluded, without the hidden ones.
  The listing is the one at the start of the run.\<close>

definition walk_visits :: "string list \<Rightarrow> bool \<Rightarrow> path \<Rightarrow> bool" where
  "walk_visits excl hid rel =
     (rel \<noteq> []
      \<and> list_all (\<lambda>d. \<not> List.member excl d \<and> \<not> (hid \<and> startswith d ''.'')) (butlast rel)
      \<and> \<not> (hid \<and> startswith (last rel) ''.''))"

definition walk_files :: "fs \<Rightarrow> path \<Rightarrow> string list \<Rightarrow> bool \<Rightarrow> path list" where
  "walk_files disk start excl hid =
     (if \<not> is_dir disk start then []
      else filter (\<lambda>p. prefix start p \<and> is_file disk p
                        \<and> walk_visits excl hid (drop (length start) p))
             (remdups (map fst disk)))"

text \<open>The lines passed to \<^verbatim>\<open>log_fn\<close>, as events, and the state of one run.\<close>

datatype event =
    DuplicateSkipped path path
  | Planned string path path
  | Placed string string path
  | ManifestSaved path
  | MissingForUndo path
  | Undone path path

record run =
  files :: fs
  seen_hashes :: "string \<rightharpoonup> path"
  results :: "MoveResult list"
  logged :: "event list"

text \<open>\<^verbatim>\<open>utils.safe_link_or_copy\<close>: the action taken and the disk after it.\<close>

definition safe_link_or_copy ::
  "env \<Rightarrow> path \<Rightarrow> path \<Rightarrow> string \<Rightarrow> fs \<Rightarrow> (error + string) \<times> fs" where
  "safe_link_or_copy E s d mode disk =
     (let d' = next_nonconflicting_name disk d in
      if mode = ''hardlink'' then
        (case os_link E s d' disk of
           Inr disk' \<Rightarrow> (Inr ''hardlink'', disk')
         | Inl x \<Rightarrow>
             (case copy2 s d' disk of
                Inr disk' \<Rightarrow> (Inr ''copy'', disk')
              | Inl e \<Rightarrow> (Inl e, disk)))
      else if mode = ''copy'' then
        (case copy2 s d' disk of
           Inr disk' \<Rightarrow> (Inr ''copy'', disk')
         | Inl e \<Rightarrow> (Inl e, disk))
      else
        (case shutil_move s d' disk of
           Inr disk' \<Rightarrow> (Inr ''move'', disk')
         | Inl e \<Rightarrow> (Inl e, disk)))"

text \<open>The body of the loop of \<^verbatim>\<open>organize\<close>, in three pieces: the destination of a file
  whose hash is already in the index (actions \<^verbatim>\<open>separate\<close> and \<^verbatim>\<open>hardlink\<close>), the part
  from \<^verbatim>\<open>seen_hashes[file_hash] = f\<close> to the end, and the whole body.  The body returns the
  exception that ends the run, if any, with the state reached.\<close>

definition plan_action :: "string \<Rightarrow> string" where
  "plan_action mode =
     (if mode = ''move'' then ''plan-move''
      else if mode = ''copy'' then ''plan-copy'' else ''plan-hardlink'')"

definition duplicate_destination :: "path \<Rightarrow> Rules \<Rightarrow> path \<Rightarrow> path \<Rightarrow> path \<Rightarrow> path" where
  "duplicate_destination dest_root rules f seen target =
     (if action (duplicates rules) = ''separate''
        then join (join dest_root (folder (duplicates rules))) (path_name f)
      else if action (duplicates rules) = ''hardlink''
        then join (join dest_root (folder (duplicates rules))) (path_name seen)
      else target)"

definition place_file ::
  "env \<Rightarrow> Rules \<Rightarrow> string \<Rightarrow> bool \<Rightarrow> path \<Rightarrow> string \<Rightarrow> path \<Rightarrow> run \<Rightarrow> error option \<times> run" where
  "place_file E rules mode dry_run f file_hash target st =
     (let st1 = st\<lparr>seen_hashes := (seen_hashes st)(file_hash \<mapsto> f)\<rparr>;
          final_dst = next_nonconflicting_name (files st1) target
      in if dry_run then
           (None, st1\<lparr>logged := logged st1 @ [Planned (plan_action mode) f final_dst],
                      results := results st1
                        @ [\<lparr>src = str f, dst = str final_dst, act = plan_action mode\<rparr>]\<rparr>)
         else
           (case ensure_dir (path_parent final_dst) (files st1) of
              Inl e \<Rightarrow> (Some e, st1)
            | Inr disk1 \<Rightarrow>
                (let placed = safe_link_or_copy E f final_dst
                       (if action (duplicates rules) \<noteq> ''hardlink'' then mode else ''hardlink'')
                       disk1
                 in case fst placed of
                      Inl e \<Rightarrow> (Some e, st1\<lparr>files := snd placed\<rparr>)
                    | Inr a \<Rightarrow>
                        (None, st1\<lparr>files := snd placed,
                                   results := results st1
                                     @ [\<lparr>src = str f, dst = str final_dst, act = a\<rparr>],
                                   logged := logged st1 @ [Placed a (path_name f) final_dst]\<rparr>))))"

definition organize_file ::
  "env \<Rightarrow> path \<Rightarrow> Rules \<Rightarrow> string \<Rightarrow> bool \<Rightarrow> path \<Rightarrow> run \<Rightarrow> error option \<times> run" where
  "organize_file E dest_root rules mode dry_run f st =
     (if is_dir (files st) f then (None, st)
      else
        case compute_destination E (files st) f dest_root rules of
          Inl e \<Rightarrow> (Some e, st)
        | Inr target \<Rightarrow>
            (case hash_file (files st) f of
               Inl e \<Rightarrow> (Some e, st)
             | Inr file_hash \<Rightarrow>
                 (case seen_hashes st file_hash of
                    None \<Rightarrow> place_file E rules mode dry_run f file_hash target st
                  | Some seen \<Rightarrow>
                      if action (duplicates rules) = ''skip'' then
                        (None, st\<lparr>logged := logged st @ [DuplicateSkipped f seen],
                                  results := results st
                                    @ [\<lparr>src = str f, dst = [], act = ''skip-duplicate''\<rparr>]\<rparr>)
                      else place_file E rules mode dry_run f file_hash
                             (duplicate_destination dest_root rules f seen target) st)))"

fun organize_loop ::
  "env \<Rightarrow> path \<Rightarrow> Rules \<Rightarrow> string \<Rightarrow> bool \<Rightarrow> path list \<Rightarrow> run \<Rightarrow> error option \<times> run" where
  "organize_loop E dest_root rules mode dry_run [] st = (None, st)"
| "organize_loop E dest_root rules mode dry_run (f # rest) st =
     (case organize_file E dest_root rules mode dry_run f st of
        (Some e, st') \<Rightarrow> (Some e, st')
      | (None, st') \<Rightarrow> organize_loop E dest_root rules mode dry_run rest st')"

definition inside_source :: string where
  "inside_source = ''Destination directory cannot be inside the source directory.''"

definition must_differ :: string where
  "must_differ = ''Destination must differ from source.''"

definition undoable :: "MoveResult \<Rightarrow> bool" where
  "undoable r = (act r = ''move'' \<or> act r = ''copy'' \<or> act r = ''hardlink'')"

text \<open>\<^verbatim>\<open>organize\<close> returns the results or the exception, the disk it leaves, and its log.\<close>

definition organize ::
  "env \<Rightarrow> path \<Rightarrow> path \<Rightarrow> Rules \<Rightarrow> string \<Rightarrow> bool \<Rightarrow> path option \<Rightarrow> fs
     \<Rightarrow> (error + MoveResult list) \<times> fs \<times> event list" where
  "organize E src_root dest_root rules mode dry_run undo_manifest disk =
     (if \<not> path_exists disk src_root then (Inl FileNotFoundError, disk, [])
      else if within_dir dest_root src_root then (Inl (RuntimeError inside_source), disk, [])
      else if resolve src_root = resolve dest_root then (Inl (RuntimeError must_differ), disk, [])
      else
        case organize_loop E dest_root rules mode dry_run
               (walk_files disk src_root (exclude_dirs rules) (exclude_hidden rules))
               \<lparr>files = disk, seen_hashes = Map.empty, results = [], logged = []\<rparr> of
          (Some e, st) \<Rightarrow> (Inl e, files st, logged st)
        | (None, st) \<Rightarrow>
            (case undo_manifest of
               Some m \<Rightarrow>
                 if \<not> dry_run then
                   (case ensure_dir (path_parent m) (files st) of
                      Inl e \<Rightarrow> (Inl e, files st, logged st)
                    | Inr disk1 \<Rightarrow>
                        if is_dir disk1 m then (Inl IsADirectoryError, disk1, logged st)
                        else
                          (let ops = filter undoable (results st);
                               disk2 = put_entry m
                                 (File ((json_text_info E ops)\<lparr>operations := Some ops\<rparr>)) disk1
                           in (Inr (results st), disk2, logged st @ [ManifestSaved m])))
                 else (Inr (results st), files st, logged st)
             | None \<Rightarrow> (Inr (results st), files st, logged st)))"

text \<open>\<^verbatim>\<open>undo\<close>: its loop over the reversed operations, then the function.  The loop
  returns the exception that ends it, if any, with the disk, the restored records and the
  log reached.\<close>

fun undo_loop ::
  "MoveResult list \<Rightarrow> fs \<times> MoveResult list \<times> event list
     \<Rightarrow> error option \<times> fs \<times> MoveResult list \<times> event list" where
  "undo_loop [] st = (None, st)"
| "undo_loop (r # rest) (disk, undone, lg) =
     (let s = Path (dst r); d = Path (src r) in
      if \<not> path_exists disk s then undo_loop rest (disk, undone, lg @ [MissingForUndo s])
      else
        case ensure_dir (path_parent d) disk of
          Inl e \<Rightarrow> (Some e, disk, undone, lg)
        | Inr disk1 \<Rightarrow>
            (let final_dst = next_nonconflicting_name disk1 d in
             case os_replace s final_dst disk1 of
               Inl e \<Rightarrow> (Some e, disk1, undone, lg)
             | Inr disk2 \<Rightarrow>
                 undo_loop rest
                   (disk2, undone @ [\<lparr>src = str s, dst = str final_dst, act = ''undo''\<rparr>],
                    lg @ [Undone s final_dst])))"

definition undo :: "path \<Rightarrow> fs \<Rightarrow> (error + MoveResult list) \<times> fs \<times> event list" where
  "undo undo_manifest disk =
     (if \<not> path_exists disk undo_manifest then (Inl FileNotFoundError, disk, [])
      else
        case lookup disk undo_manifest of
          Some (File i) \<Rightarrow>
            (case operations i of
               None \<Rightarrow> (Inl JSONDecodeError, disk, [])
             | Some ops \<Rightarrow>
                 (case undo_loop (rev ops) (disk, [], []) of
                    (None, disk', undone, lg) \<Rightarrow> (Inr undone, disk', lg)
                  | (Some e, disk', undone, lg) \<Rightarrow> (Inl e, disk', lg)))
        | _ \<Rightarrow> (Inl IsADirectoryError, disk, []))"

section \<open>Concrete inputs\<close>

text \<open>A library environment for the examples: UTC as the local time zone, three
  extensions known to \<^verbatim>\<open>mimetypes\<close>, patterns of one part with \<^verbatim>\<open>*\<close> and \<^verbatim>\<open>?\<close>, and
  a disk on which hard links succeed.\<close>

definition utc_calendar :: "real \<Rightarrow> calendar" where
  "utc_calendar ts =
     (let z = \<lfloor>ts\<rfloor> div 86400 + 719468;
          era = z div 146097;
          doe = z - era * 146097;
          yoe = (doe - doe div 1460 + doe div 36524 - doe div 146096) div 365;
          doy = doe - (365 * yoe + yoe div 4 - yoe div 100);
          mp = (5 * doy + 2) div 153;
          d = doy - (153 * mp + 2) div 5 + 1;
          m = (if mp < 10 then mp + 3 else mp - 9);
          y = yoe + era * 400 + (if m \<le> 2 then 1 else 0)
      in \<lparr>year = nat y, month = nat m, day = nat d\<rparr>)"

fun wildcard :: "string \<Rightarrow> string \<Rightarrow> bool" where
  "wildcard [] [] = True"
| "wildcard [] (x # xs) = False"
| "wildcard (c # ps) [] = (c = CHR ''*'' \<and> wildcard ps [])"
| "wildcard (c # ps) (x # xs) =
     (if c = CHR ''*'' then wildcard ps (x # xs) \<or> wildcard (c # ps) xs
      else (c = CHR ''?'' \<or> c = x) \<and> wildcard ps xs)"

definition demo_guess_type :: "string \<Rightarrow> string option" where
  "demo_guess_type s =
     map_of [(''.jpg'', ''image/jpeg''), (''.png'', ''image/png''), (''.txt'', ''text/plain'')]
       (lower (path_suffix (Path s)))"

definition demo_env :: env where
  "demo_env =
     \<lparr>fromtimestamp = utc_calendar,
      guess_type = demo_guess_type,
      glob_parts_match = (\<lambda>p pat. wildcard pat (path_name p)),
      link_ok = (\<lambda>a b. True),
      json_text_info = (\<lambda>ops. \<lparr>st_size = 2, st_mtime = 0, sha256 = ''m'', operations = None\<rparr>)\<rparr>"

text \<open>The defaults of \<^verbatim>\<open>Rules.load\<close>.\<close>

definition default_rules :: Rules where
  "default_rules =
     \<lparr>unknown_folder = ''Others'',
      exclude_dirs = [''.git'', ''__pycache__'', ''node_modules''],
      exclude_hidden = True,
      prefer_extension_over_glob = True,
      by_extension = Map.empty,
      by_glob = [],
      by_mime = [],
      by_date = \<lparr>enabled = False, base_folder = ''By Date'', group = ''month''\<rparr>,
      size_buckets = [],
      duplicates = \<lparr>action = ''separate'', folder = ''Duplicates''\<rparr>\<rparr>"

definition plain_file :: "nat \<Rightarrow> real \<Rightarrow> string \<Rightarrow> node" where
  "plain_file sz mtime digest =
     File \<lparr>st_size = sz, st_mtime = mtime, sha256 = digest, operations = None\<rparr>"

definition taken_disk :: fs where
  "taken_disk = [([''dest''], Dir), ([''dest'', ''a.txt''], plain_file 3 0 ''d1'')]"

definition photo_disk :: fs where
  "photo_disk =
     [([''src''], Dir), ([''src'', ''photo.jpg''], plain_file 2048 1748736000 ''ab12'')]"

definition photo_rules :: Rules where
  "photo_rules = default_rules
     \<lparr>by_extension := [''.jpg'' \<mapsto> ''Images''],
      by_date := \<lparr>enabled = True, base_folder = ''By Date'', group = ''month''\<rparr>\<rparr>"

lemmas path_eval = candidate_def counter_name_def join_def joinpath_def is_absolute_def
  parse_parts_def path_parent_def path_stem_def path_suffix_def path_name_def
  name_stem_def name_suffix_def digits.simps digit_char_def Path_def str_def

lemmas disk_eval = path_exists_def lookup_def is_dir_def is_file_def stat_def
  hash_file_def file_mtime_def plain_file_def

text \<open>Three files with the same bytes in one source directory.\<close>

definition triple_disk :: fs where
  "triple_disk =
     [([''src''], Dir),
      ([''src'', ''a.txt''], plain_file 5 0 ''c0ffee''),
      ([''src'', ''b.txt''], plain_file 5 0 ''c0ffee''),
      ([''src'', ''c.txt''], plain_file 5 0 ''c0ffee'')]"

definition skip_rules :: Rules where
  "skip_rules = default_rules\<lparr>duplicates := \<lparr>action = ''skip'', folder = ''Duplicates''\<rparr>\<rparr>"

definition hardlink_rules :: Rules where
  "hardlink_rules = default_rules\<lparr>duplicates := \<lparr>action = ''hardlink'', folder = ''Dupes''\<rparr>\<rparr>"

section \<open>Facts about the operations\<close>

lemma join_empty: "join p [] = p"
  by (simp add: join_def is_absolute_def parse_parts_def)

lemma joinpath_snoc: "joinpath p (segs @ [s]) = join (joinpath p segs) s"
  by (simp add: joinpath_def)

lemma joinpath_skip_empty: "joinpath p ([] # segs) = joinpath p segs"
  by (simp add: joinpath_def join_empty)

lemma utc_2025_06_01: "utc_calendar 1748736000 = \<lparr>year = 2025, month = 6, day = 1\<rparr>"
  by code_simp

lemma utc_2024_02_29: "utc_calendar 1709208000 = \<lparr>year = 2024, month = 2, day = 29\<rparr>"
  by code_simp

text \<open>No exception that the loop of \<^verbatim>\<open>organize\<close> lets through is a \<^verbatim>\<open>RuntimeError\<close>.\<close>

lemma stat_error: "stat disk p = Inl e \<Longrightarrow> e \<noteq> RuntimeError msg"
  by (auto simp: stat_def split: option.splits node.splits)

lemma glob_loop_error: "glob_loop E p gs = Inl e \<Longrightarrow> e = ValueError"
  by (induction gs) (auto simp: path_match_def split: if_splits)

lemma match_folder_for_error: "match_folder_for E rules p = Inl e \<Longrightarrow> e = ValueError"
  by (auto simp: match_folder_for_def Let_def split: option.splits sum.splits if_splits
      dest: glob_loop_error)

lemma compute_destination_error:
  "compute_destination E disk p dest_root rules = Inl e \<Longrightarrow> e \<noteq> RuntimeError msg"
  by (auto simp: compute_destination_def file_mtime_def Let_def
      split: sum.splits if_splits dest: match_folder_for_error stat_error)

lemma hash_file_error: "hash_file disk p = Inl e \<Longrightarrow> e \<noteq> RuntimeError msg"
  by (auto simp: hash_file_def split: sum.splits dest: stat_error)

lemma ensure_dir_error:
  "ensure_dir p disk = Inl e \<Longrightarrow> e = FileExistsError \<or> e = NotADirectoryError"
  by (auto simp: ensure_dir_def split: option.splits if_splits)

lemma os_replace_error:
  "os_replace a b disk = Inl e \<Longrightarrow> e = FileNotFoundError \<or> e = OSError"
  by (auto simp: os_replace_def split: if_splits)

lemma safe_link_or_copy_error:
  "fst (safe_link_or_copy E s d mode disk) = Inl e \<Longrightarrow> e \<noteq> RuntimeError msg"
  by (auto simp: safe_link_or_copy_def copy2_def shutil_move_def Let_def
      split: sum.splits if_splits dest: stat_error os_replace_error)

lemma place_file_error:
  "place_file E rules mode dry_run f h target st = (Some e, st') \<Longrightarrow> e \<noteq> RuntimeError msg"
  by (auto simp: place_file_def Let_def split: if_splits sum.splits
      dest: safe_link_or_copy_error ensure_dir_error)

lemma organize_file_error:
  "organize_file E dest_root rules mode dry_run f st = (Some e, st') \<Longrightarrow> e \<noteq> RuntimeError msg"
  by (auto simp: organize_file_def split: if_splits sum.splits option.splits
      dest: compute_destination_error hash_file_error place_file_error)

lemma organize_loop_error:
  "organize_loop E dest_root rules mode dry_run fs st = (Some e, st') \<Longrightarrow> e \<noteq> RuntimeError msg"
proof (induction fs arbitrary: st)
  case Nil
  then show ?case by simp
next
  case (Cons f fs)
  show ?case
  proof (cases "organize_file E dest_root rules mode dry_run f st")
    case (Pair r st1)
    show ?thesis
    proof (cases r)
      case None
      with Pair Cons show ?thesis by simp
    next
      case (Some x)
      with Pair Cons.prems have "x = e" by simp
      with Pair Some show ?thesis using organize_file_error by blast
    qed
  qed
qed

text \<open>Conflict naming returns a free path, and is the identity on one.\<close>

lemma next_nonconflicting_name_free:
  "\<not> path_exists disk (next_nonconflicting_name disk p)"
proof (cases "path_exists disk p")
  case False
  then show ?thesis by (simp add: next_nonconflicting_name_def)
next
  case True
  with next_name_loop_smallest [of 1 disk p] show ?thesis
    by (auto simp: next_nonconflicting_name_def)
qed

lemma next_nonconflicting_name_same:
  "\<not> path_exists disk p \<Longrightarrow> next_nonconflicting_name disk p = p"
  by (simp add: next_nonconflicting_name_def)

text \<open>\<^verbatim>\<open>ensure_dir\<close>, when it returns, has added the missing ancestors and touched
  nothing that existed.\<close>

lemma lookup_append_dir:
  "lookup (disk @ [(q, Dir)]) x =
     (if path_exists disk x then lookup disk x else if x = q then Some Dir else None)"
  by (auto simp: lookup_def path_exists_def map_add_def split: option.splits)

lemma lookup_mkdirs:
  "lookup (mkdirs qs disk) x =
     (if path_exists disk x then lookup disk x else if x \<in> set qs then Some Dir else None)"
  unfolding mkdirs_def
proof (induction qs arbitrary: disk)
  case Nil
  then show ?case by (simp add: path_exists_def)
next
  case (Cons q qs)
  show ?case
  proof (cases "path_exists disk q")
    case True
    with Cons [of disk] show ?thesis by auto
  next
    case False
    with Cons [of "disk @ [(q, Dir)]"] show ?thesis
      by (auto simp: lookup_append_dir path_exists_def)
  qed
qed

lemma lookup_ensure_dir:
  "ensure_dir p disk = Inr disk1 \<Longrightarrow>
   lookup disk1 x =
     (if path_exists disk x then lookup disk x else if prefix x p then Some Dir else None)"
  by (auto simp: ensure_dir_def lookup_mkdirs split: option.splits)

lemma path_exists_ensure_dir:
  "ensure_dir p disk = Inr disk1 \<Longrightarrow> path_exists disk x \<Longrightarrow> path_exists disk1 x"
  by (simp add: path_exists_def lookup_ensure_dir)

text \<open>After a rename, the new name holds what the old one held.\<close>

lemma map_of_renamed:
  assumes "\<forall>e \<in> set xs. fst e \<noteq> b"
  shows "map_of (map (\<lambda>(p, n). (if prefix a p then b @ drop (length a) p else p, n)) xs) b
           = map_of xs a"
  using assms
proof (induction xs)
  case Nil
  then show ?case by simp
next
  case (Cons e xs)
  obtain p n where e: "e = (p, n)" by (cases e)
  from Cons.prems e have pb: "p \<noteq> b" by simp
  show ?case
  proof (cases "p = a")
    case True
    with e show ?thesis by simp
  next
    case False
    have "(if prefix a p then b @ drop (length a) p else p) \<noteq> b"
    proof (cases "prefix a p")
      case True
      with False have "drop (length a) p \<noteq> []"
        by (auto simp: prefix_def)
      with True show ?thesis by simp
    next
      case np: False
      with pb show ?thesis by simp
    qed
    with e False Cons show ?thesis by simp
  qed
qed

lemma lookup_os_replace:
  assumes "os_replace a b disk = Inr disk2" and "b \<noteq> []"
  shows "lookup disk2 b = lookup disk a"
proof (cases "a = b")
  case True
  with assms show ?thesis by (auto simp: os_replace_def split: if_splits)
next
  case False
  with assms have np: "\<not> prefix a b" and d2: "disk2 = rename_entries a b disk"
    by (auto simp: os_replace_def split: if_splits)
  from np have ane: "a \<noteq> []" by auto
  have "\<forall>e \<in> set (remove_entry b disk). fst e \<noteq> b"
    by (simp add: remove_entry_def)
  from map_of_renamed [OF this, of a]
  have "map_of (rename_entries a b disk) b = map_of (remove_entry b disk) a"
    by (simp add: rename_entries_def)
  with False ane assms(2) d2 show ?thesis by (simp add: lookup_def map_of_remove_entry)
qed

section \<open>The claims of the specification\<close>

subsection \<open>The layout of a destination\<close>

text \<open>
  Claim C1.  For a file that can be classified and read, the destination is the
  destination root joined with, from the outside in: the folder of the first matching size
  bucket, if there is one; the base folder of the date rule and the date segments, if the
  rule is enabled; the classification folder; and the name of the file.
\<close>

theorem compute_destination_layout:
  assumes "match_folder_for E rules p = Inr m" and "stat disk p = Inr i"
  shows "compute_destination E disk p dest_root rules =
           Inr (joinpath dest_root
                  ((case match_size_bucket rules (st_size i) of None \<Rightarrow> [] | Some b \<Rightarrow> [b])
                   @ (if enabled (by_date rules)
                      then base_folder (by_date rules) # date_parts E rules (st_mtime i) else [])
                   @ [classification_folder rules m]
                   @ [path_name p]))"
proof (cases "match_size_bucket rules (st_size i)")
  case None
  then show ?thesis
    using assms by (simp add: compute_destination_def file_mtime_def joinpath_def Let_def)
next
  case (Some b)
  then show ?thesis
    using assms
    by (cases "b = []")
      (simp_all add: compute_destination_def file_mtime_def joinpath_def join_empty Let_def)
qed

text \<open>The scenario of the specification: \<^verbatim>\<open>photo.jpg\<close>, modified on 2025-06-01, with the
  extension rule for \<^verbatim>\<open>.jpg\<close> and the date rule grouping by month.\<close>

theorem compute_destination_layout_witness:
  "compute_destination demo_env photo_disk [''src'', ''photo.jpg''] [''dest''] photo_rules =
     Inr [''dest'', ''By Date'', ''2025'', ''06'', ''Images'', ''photo.jpg'']"
proof -
  have m: "match_folder_for demo_env photo_rules [''src'', ''photo.jpg''] = Inr (Some ''Images'')"
    by (simp add: match_folder_for_def photo_rules_def default_rules_def path_eval
        lower_def lower_char_def)
  have s: "stat photo_disk [''src'', ''photo.jpg'']
             = Inr \<lparr>st_size = 2048, st_mtime = 1748736000, sha256 = ''ab12'', operations = None\<rparr>"
    by (simp add: photo_disk_def disk_eval)
  have d: "date_parts demo_env photo_rules 1748736000 = [''2025'', ''06'']"
    by (simp add: date_parts_def demo_env_def utc_2025_06_01 photo_rules_def default_rules_def
        zero_pad_def digits.simps digit_char_def)
  have b: "match_size_bucket photo_rules 2048 = None"
    by (simp add: match_size_bucket_def photo_rules_def default_rules_def)
  have c: "classification_folder photo_rules (Some ''Images'') = ''Images''"
    by (simp add: classification_folder_def)
  have e: "enabled (by_date photo_rules)" "base_folder (by_date photo_rules) = ''By Date''"
    by (simp_all add: photo_rules_def)
  show ?thesis
    unfolding compute_destination_layout [OF m s, of "[''dest'']"]
    by (simp add: b c d e path_eval)
qed

subsection \<open>The fingerprint index\<close>

text \<open>
  Claim C2 says that the index keeps, for each hash, the first file seen with it, so that
  under the duplicate action \<^verbatim>\<open>hardlink\<close> every later file with that hash is sent to the
  duplicates folder under the first file's name.  The loop of \<^verbatim>\<open>organize\<close> runs
  \<^verbatim>\<open>seen_hashes[file_hash] = f\<close> for every file it does not skip, duplicates included:
  with three equal files \<^verbatim>\<open>a.txt\<close>, \<^verbatim>\<open>b.txt\<close>, \<^verbatim>\<open>c.txt\<close>, the index holds
  \<^verbatim>\<open>b.txt\<close> after the second, and the third is sent to \<^verbatim>\<open>Dupes/b.txt\<close>.
\<close>

theorem hardlink_third_duplicate_named_after_second:
  "fst (organize demo_env [''src''] [''dest''] hardlink_rules ''copy'' False None triple_disk) =
     Inr [\<lparr>src = ''/src/a.txt'', dst = ''/dest/Others/a.txt'', act = ''hardlink''\<rparr>,
          \<lparr>src = ''/src/b.txt'', dst = ''/dest/Dupes/a.txt'', act = ''hardlink''\<rparr>,
          \<lparr>src = ''/src/c.txt'', dst = ''/dest/Dupes/b.txt'', act = ''hardlink''\<rparr>]
   \<and> seen_hashes
        (snd (organize_loop demo_env [''dest''] hardlink_rules ''copy'' False
                [[''src'', ''a.txt''], [''src'', ''b.txt'']]
                \<lparr>files = triple_disk, seen_hashes = Map.empty, results = [], logged = []\<rparr>))
        ''c0ffee'' = Some [''src'', ''b.txt'']"
  by code_simp

subsection \<open>Placing a first occurrence\<close>

text \<open>
  Claim C3 says that a file whose fingerprint is new is placed with the requested mode,
  whatever the duplicate action is.  The loop of \<^verbatim>\<open>organize\<close> passes
  \<^verbatim>\<open>mode if rules.duplicates.action != "hardlink" else "hardlink"\<close> to
  \<^verbatim>\<open>safe_link_or_copy\<close> for every file, first occurrences included: under the duplicate
  action \<^verbatim>\<open>hardlink\<close>, a run asked to move its only file links it, records
  \<^verbatim>\<open>hardlink\<close> and leaves the source where it was, while the dry run of the same call
  plans the move.
\<close>

theorem first_occurrence_linked_instead_of_moved:
  "organize demo_env [''src''] [''dest''] hardlink_rules ''move'' False None photo_disk =
     (Inr [\<lparr>src = ''/src/photo.jpg'', dst = ''/dest/Others/photo.jpg'', act = ''hardlink''\<rparr>],
      [([''src''], Dir),
       ([''src'', ''photo.jpg''], plain_file 2048 1748736000 ''ab12''),
       ([''dest''], Dir), ([''dest'', ''Others''], Dir),
       ([''dest'', ''Others'', ''photo.jpg''], plain_file 2048 1748736000 ''ab12'')],
      [Placed ''hardlink'' ''photo.jpg'' [''dest'', ''Others'', ''photo.jpg'']])
   \<and> fst (organize demo_env [''src''] [''dest''] hardlink_rules ''move'' True None photo_disk) =
       Inr [\<lparr>src = ''/src/photo.jpg'', dst = ''/dest/Others/photo.jpg'', act = ''plan-move''\<rparr>]
   \<and> fst (organize demo_env [''src''] [''dest''] default_rules ''move'' False None photo_disk) =
       Inr [\<lparr>src = ''/src/photo.jpg'', dst = ''/dest/Others/photo.jpg'', act = ''move''\<rparr>]"
  by code_simp

subsection \<open>The classification folder\<close>

text \<open>The order of the specification, with \<open>find\<close> for "the first that matches": the
  extension map at the lower-cased suffix, then the glob patterns, then the MIME
  prefixes against the guessed type.\<close>

definition first_match :: "env \<Rightarrow> Rules \<Rightarrow> path \<Rightarrow> string option" where
  "first_match E rules p =
     (case by_extension rules (lower (path_suffix p)) of
        Some fld \<Rightarrow> Some fld
      | None \<Rightarrow>
          (case find (\<lambda>(pat, fld). glob_parts_match E p pat) (by_glob rules) of
             Some hit \<Rightarrow> Some (snd hit)
           | None \<Rightarrow>
               (case guess_type E (str p) of
                  None \<Rightarrow> None
                | Some mime \<Rightarrow>
                    if mime = [] then None
                    else map_option snd (find (\<lambda>(pre, fld). prefix pre mime) (by_mime rules)))))"

definition has_parts :: "string \<Rightarrow> bool" where
  "has_parts pat = (parse_parts pat \<noteq> [] \<or> is_absolute pat)"

definition empty_glob_rules :: Rules where
  "empty_glob_rules = default_rules\<lparr>by_glob := [('''', ''Misc'')]\<rparr>"

definition empty_folder_rules :: Rules where
  "empty_folder_rules = default_rules\<lparr>by_extension := [''.jpg'' \<mapsto> '''']\<rparr>"

definition typed_rules :: Rules where
  "typed_rules = default_rules
     \<lparr>by_extension := [''.jpg'' \<mapsto> ''Images''],
      by_glob := [(''report*'', ''Reports''), (''*'', ''Everything'')],
      by_mime := [(''text/'', ''Text'')]\<rparr>"

lemma glob_loop_find:
  "list_all (\<lambda>(pat, fld). has_parts pat) gs \<Longrightarrow>
   glob_loop E p gs = Inr (map_option snd (find (\<lambda>(pat, fld). glob_parts_match E p pat) gs))"
  by (induction gs) (auto simp: path_match_def has_parts_def)

lemma mime_loop_find:
  "mime_loop mime ms = map_option snd (find (\<lambda>(pre, fld). prefix pre mime) ms)"
  by (induction ms) (auto simp: startswith_def)

text \<open>
  Claim C4, amended.  When no configured glob pattern is empty, the classification never
  fails: the folder is that of the first match in the order extension map, glob patterns,
  MIME prefixes; and the unknown folder is used when nothing matches or when the first
  match names the empty folder.
\<close>

theorem classification_first_match:
  assumes "list_all (\<lambda>(pat, fld). has_parts pat) (by_glob rules)"
  shows "match_folder_for E rules p = Inr (first_match E rules p)
         \<and> classification_folder rules (first_match E rules p) =
             (if first_match E rules p = None \<or> first_match E rules p = Some []
              then unknown_folder rules else the (first_match E rules p))"
proof
  show "match_folder_for E rules p = Inr (first_match E rules p)"
    unfolding match_folder_for_def first_match_def Let_def glob_loop_find [OF assms]
    by (simp add: mime_loop_find split: option.splits)
next
  show "classification_folder rules (first_match E rules p) =
          (if first_match E rules p = None \<or> first_match E rules p = Some []
           then unknown_folder rules else the (first_match E rules p))"
    by (simp add: classification_folder_def split: option.splits)
qed

theorem classification_first_match_witness:
  "match_folder_for demo_env typed_rules [''src'', ''Photo.JPG''] = Inr (Some ''Images'')
   \<and> match_folder_for demo_env typed_rules [''src'', ''report.pdf''] = Inr (Some ''Reports'')
   \<and> match_folder_for demo_env (typed_rules\<lparr>by_glob := []\<rparr>) [''src'', ''a.txt'']
        = Inr (Some ''Text'')
   \<and> classification_folder default_rules (first_match demo_env default_rules [''src'', ''x''])
        = ''Others''"
proof -
  have g: "list_all (\<lambda>(pat, fld). has_parts pat) (by_glob typed_rules)"
    by (simp add: typed_rules_def has_parts_def parse_parts_def)
  have g0: "list_all (\<lambda>(pat, fld). has_parts pat) (by_glob (typed_rules\<lparr>by_glob := []\<rparr>))"
    by simp
  have g1: "list_all (\<lambda>(pat, fld). has_parts pat) (by_glob default_rules)"
    by (simp add: default_rules_def)
  have a: "first_match demo_env typed_rules [''src'', ''Photo.JPG''] = Some ''Images''"
    by (simp add: first_match_def typed_rules_def default_rules_def path_eval
        lower_def lower_char_def)
  have b: "first_match demo_env typed_rules [''src'', ''report.pdf''] = Some ''Reports''"
    by (simp add: first_match_def typed_rules_def default_rules_def demo_env_def path_eval
        lower_def lower_char_def)
  have c: "first_match demo_env (typed_rules\<lparr>by_glob := []\<rparr>) [''src'', ''a.txt'']
             = Some ''Text''"
    by (simp add: first_match_def typed_rules_def default_rules_def demo_env_def
        demo_guess_type_def path_eval lower_def lower_char_def)
  have d: "first_match demo_env default_rules [''src'', ''x''] = None"
    by (simp add: first_match_def default_rules_def demo_env_def
        demo_guess_type_def path_eval lower_def lower_char_def)
  have u: "unknown_folder default_rules = ''Others''"
    by (simp add: default_rules_def)
  show ?thesis
    using classification_first_match [OF g, of demo_env "[''src'', ''Photo.JPG'']"]
      classification_first_match [OF g, of demo_env "[''src'', ''report.pdf'']"]
      classification_first_match [OF g0, of demo_env "[''src'', ''a.txt'']"]
      classification_first_match [OF g1, of demo_env "[''src'', ''x'']"]
    unfolding a b c d by (simp add: u)
qed

text \<open>The claim as it was stated fails twice: an empty glob pattern makes
  \<^verbatim>\<open>Path.match\<close> raise, and a match that names the empty folder gives the unknown folder.\<close>

theorem classification_first_match_counterexample:
  "match_folder_for demo_env empty_glob_rules [''src'', ''photo.jpg''] = Inl ValueError
   \<and> compute_destination demo_env photo_disk [''src'', ''photo.jpg''] [''dest'']
        empty_glob_rules = Inl ValueError
   \<and> by_extension empty_folder_rules (lower (path_suffix [''src'', ''photo.jpg''])) = Some ''''
   \<and> compute_destination demo_env photo_disk [''src'', ''photo.jpg''] [''dest'']
        empty_folder_rules = Inr [''dest'', ''Others'', ''photo.jpg'']"
proof -
  have m: "match_folder_for demo_env empty_glob_rules [''src'', ''photo.jpg''] = Inl ValueError"
    by (simp add: match_folder_for_def empty_glob_rules_def default_rules_def path_match_def
        path_eval lower_def lower_char_def)
  have e: "by_extension empty_folder_rules (lower (path_suffix [''src'', ''photo.jpg'']))
             = Some ''''"
    by (simp add: empty_folder_rules_def path_eval lower_def lower_char_def)
  have f: "match_folder_for demo_env empty_folder_rules [''src'', ''photo.jpg''] = Inr (Some '''')"
    using e by (simp add: match_folder_for_def)
  have d: "compute_destination demo_env photo_disk [''src'', ''photo.jpg''] [''dest'']
        empty_folder_rules = Inr [''dest'', ''Others'', ''photo.jpg'']"
    unfolding compute_destination_def f
    by (simp add: classification_folder_def empty_folder_rules_def default_rules_def
        match_size_bucket_def photo_disk_def disk_eval path_eval)
  show ?thesis
    using m e d by (simp add: compute_destination_def)
qed

subsection \<open>Undo\<close>

text \<open>The two events of \<^verbatim>\<open>undo\<close>, the path each is about, and the results that a log of
  such events stands for.\<close>

fun undo_source :: "event \<Rightarrow> path option" where
  "undo_source (MissingForUndo s) = Some s"
| "undo_source (Undone s t) = Some s"
| "undo_source e = None"

fun undo_records :: "event list \<Rightarrow> MoveResult list" where
  "undo_records [] = []"
| "undo_records (Undone s t # es) = \<lparr>src = str s, dst = str t, act = ''undo''\<rparr> # undo_records es"
| "undo_records (e # es) = undo_records es"

lemma undo_records_append: "undo_records (xs @ ys) = undo_records xs @ undo_records ys"
  by (induction xs rule: undo_records.induct) simp_all

lemma undo_loop_log:
  "undo_loop rs (disk, undone, lg) = (x, disk', undone', lg') \<Longrightarrow>
   \<exists>l2. lg' = lg @ l2
        \<and> map undo_source l2 = map (\<lambda>r. Some (Path (dst r))) (take (length l2) rs)
        \<and> undone' = undone @ undo_records l2
        \<and> (x = None \<longrightarrow> length l2 = length rs)
        \<and> (\<forall>e. x = Some e \<longrightarrow>
               e = FileExistsError \<or> e = NotADirectoryError \<or> e = OSError)"
proof (induction rs arbitrary: disk undone lg)
  case Nil
  then show ?case by simp
next
  case (Cons r rs)
  let ?s = "Path (dst r)"
  let ?d = "Path (src r)"
  show ?case
  proof (cases "path_exists disk ?s")
    case False
    with Cons.prems
    have "undo_loop rs (disk, undone, lg @ [MissingForUndo ?s]) = (x, disk', undone', lg')"
      by simp
    from Cons.IH [OF this] obtain l2 where
      "lg' = (lg @ [MissingForUndo ?s]) @ l2"
      "map undo_source l2 = map (\<lambda>r. Some (Path (dst r))) (take (length l2) rs)"
      "undone' = undone @ undo_records l2"
      "x = None \<longrightarrow> length l2 = length rs"
      "\<forall>e. x = Some e \<longrightarrow> e = FileExistsError \<or> e = NotADirectoryError \<or> e = OSError"
      by blast
    then show ?thesis
      by (intro exI [of _ "MissingForUndo ?s # l2"]) simp
  next
    case True
    show ?thesis
    proof (cases "ensure_dir (path_parent ?d) disk")
      case (Inl e)
      with True Cons.prems ensure_dir_error [OF Inl] show ?thesis
        by (intro exI [of _ "[]"]) (auto simp: Let_def)
    next
      case (Inr disk1)
      let ?t = "next_nonconflicting_name disk1 ?d"
      let ?rec = "\<lparr>src = str ?s, dst = str ?t, act = ''undo''\<rparr>"
      have there: "path_exists disk1 ?s"
        using Inr True by (rule path_exists_ensure_dir)
      show ?thesis
      proof (cases "os_replace ?s ?t disk1")
        case failed: (Inl e)
        with there have "e = OSError" by (auto simp: os_replace_def split: if_splits)
        with True Inr failed Cons.prems show ?thesis
          by (intro exI [of _ "[]"]) (auto simp: Let_def)
      next
        case renamed: (Inr disk2)
        with True Inr Cons.prems
        have "undo_loop rs (disk2, undone @ [?rec], lg @ [Undone ?s ?t])
                = (x, disk', undone', lg')"
          by (simp add: Let_def)
        from Cons.IH [OF this] obtain l2 where
          "lg' = (lg @ [Undone ?s ?t]) @ l2"
          "map undo_source l2 = map (\<lambda>r. Some (Path (dst r))) (take (length l2) rs)"
          "undone' = (undone @ [?rec]) @ undo_records l2"
          "x = None \<longrightarrow> length l2 = length rs"
          "\<forall>e. x = Some e \<longrightarrow> e = FileExistsError \<or> e = NotADirectoryError \<or> e = OSError"
          by blast
        then show ?thesis
          by (intro exI [of _ "Undone ?s ?t # l2"]) simp
      qed
    qed
  qed
qed

lemma undo_records_all_undo: "list_all (\<lambda>r. act r = ''undo'') (undo_records es)"
  by (induction es rule: undo_records.induct) simp_all

text \<open>
  Claim C5.  \<^verbatim>\<open>undo\<close> raises the not-found error exactly when the manifest does not exist.
  On a manifest that parses, it is the loop over the operations, last operation first,
  started with no result: its log holds one event for each operation it reached, each about
  that operation's destination; its results are the \<^verbatim>\<open>undo\<close> records of the restored
  files, in that order; when it returns, it has reached every operation; what can stop it
  is a directory that cannot be made or a rename that cannot be done.  The loop ends when no
  operation is left.  An operation whose destination is missing when its turn comes is
  logged as a warning, leaves the disk and the results as they are, and the loop goes on.  An operation
  whose destination exists, once the parent of its source is made, is renamed to the
  conflict-free name of its source (unless that name lies inside the destination), which
  then holds what the destination held; its \<^verbatim>\<open>undo\<close> record is added and the loop goes on.
\<close>

theorem undo_skips_missing:
  "(fst (undo m disk) = Inl FileNotFoundError \<longleftrightarrow> \<not> path_exists disk m)
   \<and> (lookup disk m = Some (File i) \<and> operations i = Some ops \<longrightarrow>
        (\<exists>x disk' undone lg.
           undo_loop (rev ops) (disk, [], []) = (x, disk', undone, lg)
           \<and> undo m disk = ((case x of None \<Rightarrow> Inr undone | Some e \<Rightarrow> Inl e), disk', lg)
           \<and> map undo_source lg = map (\<lambda>r. Some (Path (dst r))) (take (length lg) (rev ops))
           \<and> undone = undo_records lg
           \<and> list_all (\<lambda>r. act r = ''undo'') undone
           \<and> (x = None \<longrightarrow> length lg = length ops)
           \<and> (\<forall>e. x = Some e \<longrightarrow>
                  e = FileExistsError \<or> e = NotADirectoryError \<or> e = OSError)))
   \<and> undo_loop [] (disk, restored, earlier) = (None, disk, restored, earlier)
   \<and> (\<not> path_exists disk (Path (dst r)) \<longrightarrow>
        undo_loop (r # rest) (disk, restored, earlier)
          = undo_loop rest (disk, restored, earlier @ [MissingForUndo (Path (dst r))]))
   \<and> (path_exists disk (Path (dst r))
        \<and> ensure_dir (path_parent (Path (src r))) disk = Inr disk1
        \<and> \<not> prefix (Path (dst r)) (next_nonconflicting_name disk1 (Path (src r))) \<longrightarrow>
        undo_loop (r # rest) (disk, restored, earlier)
          = undo_loop rest
              (rename_entries (Path (dst r)) (next_nonconflicting_name disk1 (Path (src r))) disk1,
               restored @ [\<lparr>src = str (Path (dst r)),
                             dst = str (next_nonconflicting_name disk1 (Path (src r))),
                             act = ''undo''\<rparr>],
               earlier @ [Undone (Path (dst r)) (next_nonconflicting_name disk1 (Path (src r)))])
        \<and> lookup (rename_entries (Path (dst r))
                     (next_nonconflicting_name disk1 (Path (src r))) disk1)
              (next_nonconflicting_name disk1 (Path (src r)))
            = lookup disk (Path (dst r)))"
proof (intro conjI impI)
  show "fst (undo m disk) = Inl FileNotFoundError \<longleftrightarrow> \<not> path_exists disk m"
  proof (cases "path_exists disk m")
    case False
    then show ?thesis by (simp add: undo_def)
  next
    case True
    have "fst (undo m disk) \<noteq> Inl FileNotFoundError"
    proof (cases "lookup disk m")
      case None
      with True show ?thesis by (simp add: path_exists_def)
    next
      case (Some nd)
      show ?thesis
      proof (cases nd)
        case Dir
        with True Some show ?thesis by (simp add: undo_def)
      next
        case (File i)
        show ?thesis
        proof (cases "operations i")
          case None
          with True Some File show ?thesis by (simp add: undo_def)
        next
          case ops: (Some ops)
          obtain x disk' undone lg where
            l: "undo_loop (rev ops) (disk, [], []) = (x, disk', undone, lg)"
            by (cases "undo_loop (rev ops) (disk, [], [])")
          from undo_loop_log [OF l]
          have "\<forall>e. x = Some e \<longrightarrow> e \<noteq> FileNotFoundError" by auto
          with True Some File ops l show ?thesis
            by (cases x) (auto simp: undo_def)
        qed
      qed
    qed
    with True show ?thesis by simp
  qed
next
  assume a: "lookup disk m = Some (File i) \<and> operations i = Some ops"
  obtain x disk' undone lg where l: "undo_loop (rev ops) (disk, [], []) = (x, disk', undone, lg)"
    by (cases "undo_loop (rev ops) (disk, [], [])")
  from undo_loop_log [OF l]
  have log: "map undo_source lg = map (\<lambda>r. Some (Path (dst r))) (take (length lg) (rev ops))"
    and recs: "undone = undo_records lg"
    and all: "x = None \<longrightarrow> length lg = length ops"
    and errs: "\<forall>e. x = Some e \<longrightarrow>
                 e = FileExistsError \<or> e = NotADirectoryError \<or> e = OSError"
    by auto
  from a l have u: "undo m disk = ((case x of None \<Rightarrow> Inr undone | Some e \<Rightarrow> Inl e), disk', lg)"
    by (cases x) (simp_all add: undo_def path_exists_def)
  show "\<exists>x disk' undone lg.
           undo_loop (rev ops) (disk, [], []) = (x, disk', undone, lg)
           \<and> undo m disk = ((case x of None \<Rightarrow> Inr undone | Some e \<Rightarrow> Inl e), disk', lg)
           \<and> map undo_source lg = map (\<lambda>r. Some (Path (dst r))) (take (length lg) (rev ops))
           \<and> undone = undo_records lg
           \<and> list_all (\<lambda>r. act r = ''undo'') undone
           \<and> (x = None \<longrightarrow> length lg = length ops)
           \<and> (\<forall>e. x = Some e \<longrightarrow>
                  e = FileExistsError \<or> e = NotADirectoryError \<or> e = OSError)"
    using l u log recs all errs undo_records_all_undo [of lg]
    by (intro exI [of _ x] exI [of _ disk'] exI [of _ undone] exI [of _ lg]) simp
next
  show "undo_loop [] (disk, restored, earlier) = (None, disk, restored, earlier)"
    by simp
next
  assume "\<not> path_exists disk (Path (dst r))"
  then show "undo_loop (r # rest) (disk, restored, earlier)
          = undo_loop rest (disk, restored, earlier @ [MissingForUndo (Path (dst r))])"
    by simp
next
  assume a: "path_exists disk (Path (dst r))
        \<and> ensure_dir (path_parent (Path (src r))) disk = Inr disk1
        \<and> \<not> prefix (Path (dst r)) (next_nonconflicting_name disk1 (Path (src r)))"
  let ?s = "Path (dst r)"
  let ?t = "next_nonconflicting_name disk1 (Path (src r))"
  from a have there: "path_exists disk1 ?s"
    by (auto intro: path_exists_ensure_dir)
  from a have ne: "?s \<noteq> ?t" by auto
  with a there have ren: "os_replace ?s ?t disk1 = Inr (rename_entries ?s ?t disk1)"
    by (simp add: os_replace_def)
  with a show "undo_loop (r # rest) (disk, restored, earlier)
          = undo_loop rest
              (rename_entries ?s ?t disk1,
               restored @ [\<lparr>src = str ?s, dst = str ?t, act = ''undo''\<rparr>],
               earlier @ [Undone ?s ?t])"
    by (simp add: Let_def)
next
  assume a: "path_exists disk (Path (dst r))
        \<and> ensure_dir (path_parent (Path (src r))) disk = Inr disk1
        \<and> \<not> prefix (Path (dst r)) (next_nonconflicting_name disk1 (Path (src r)))"
  let ?s = "Path (dst r)"
  let ?t = "next_nonconflicting_name disk1 (Path (src r))"
  from a have there: "path_exists disk1 ?s"
    by (auto intro: path_exists_ensure_dir)
  from a have ne: "?s \<noteq> ?t" by auto
  with a there have ren: "os_replace ?s ?t disk1 = Inr (rename_entries ?s ?t disk1)"
    by (simp add: os_replace_def)
  have "\<not> path_exists disk1 ?t" by (rule next_nonconflicting_name_free)
  then have tne: "?t \<noteq> []" by (auto simp: path_exists_def lookup_def)
  have "lookup (rename_entries ?s ?t disk1) ?t = lookup disk1 ?s"
    by (rule lookup_os_replace [OF ren tne])
  also have "\<dots> = lookup disk ?s"
  proof -
    from a have e: "ensure_dir (path_parent (Path (src r))) disk = Inr disk1" by simp
    from a show ?thesis by (simp add: lookup_ensure_dir [OF e])
  qed
  finally show "lookup (rename_entries ?s ?t disk1) ?t = lookup disk ?s" .
qed

text \<open>The scenario of the specification: the manifest of a run that moved two files, after
  the user has deleted the second file from the destination.\<close>

definition moved_ops :: "MoveResult list" where
  "moved_ops =
     [\<lparr>src = ''/src/a.txt'', dst = ''/dest/Others/a.txt'', act = ''move''\<rparr>,
      \<lparr>src = ''/src/b.txt'', dst = ''/dest/Others/b.txt'', act = ''move''\<rparr>]"

definition undo_disk :: fs where
  "undo_disk =
     [([''src''], Dir), ([''dest''], Dir), ([''dest'', ''Others''], Dir),
      ([''dest'', ''Others'', ''a.txt''], plain_file 5 0 ''c0ffee''),
      ([''undo.json''],
       File \<lparr>st_size = 2, st_mtime = 0, sha256 = ''m'', operations = Some moved_ops\<rparr>)]"

theorem undo_skips_missing_witness:
  "undo [''undo.json''] undo_disk =
     (Inr [\<lparr>src = ''/dest/Others/a.txt'', dst = ''/src/a.txt'', act = ''undo''\<rparr>],
      [([''src''], Dir), ([''dest''], Dir), ([''dest'', ''Others''], Dir),
       ([''src'', ''a.txt''], plain_file 5 0 ''c0ffee''),
       ([''undo.json''],
        File \<lparr>st_size = 2, st_mtime = 0, sha256 = ''m'', operations = Some moved_ops\<rparr>)],
      [MissingForUndo [''dest'', ''Others'', ''b.txt''],
       Undone [''dest'', ''Others'', ''a.txt''] [''src'', ''a.txt'']])
   \<and> map undo_source [MissingForUndo [''dest'', ''Others'', ''b.txt''],
          Undone [''dest'', ''Others'', ''a.txt''] [''src'', ''a.txt'']]
       = map (\<lambda>r. Some (Path (dst r))) (rev moved_ops)
   \<and> undo_loop (rev moved_ops) (undo_disk, [], [])
       = undo_loop [\<lparr>src = ''/src/a.txt'', dst = ''/dest/Others/a.txt'', act = ''move''\<rparr>]
           (undo_disk, [], [MissingForUndo [''dest'', ''Others'', ''b.txt'']])
   \<and> lookup (rename_entries [''dest'', ''Others'', ''a.txt''] [''src'', ''a.txt''] undo_disk)
         [''src'', ''a.txt''] = Some (plain_file 5 0 ''c0ffee'')
   \<and> fst (undo [''gone.json''] undo_disk) = Inl FileNotFoundError"
proof -
  let ?i = "\<lparr>st_size = 2, st_mtime = 0, sha256 = ''m'', operations = Some moved_ops\<rparr>"
  let ?b = "\<lparr>src = ''/src/b.txt'', dst = ''/dest/Others/b.txt'', act = ''move''\<rparr>"
  let ?a = "\<lparr>src = ''/src/a.txt'', dst = ''/dest/Others/a.txt'', act = ''move''\<rparr>"
  have run: "undo [''undo.json''] undo_disk =
     (Inr [\<lparr>src = ''/dest/Others/a.txt'', dst = ''/src/a.txt'', act = ''undo''\<rparr>],
      [([''src''], Dir), ([''dest''], Dir), ([''dest'', ''Others''], Dir),
       ([''src'', ''a.txt''], plain_file 5 0 ''c0ffee''),
       ([''undo.json''], File ?i)],
      [MissingForUndo [''dest'', ''Others'', ''b.txt''],
       Undone [''dest'', ''Others'', ''a.txt''] [''src'', ''a.txt'']])"
    by code_simp
  have gone: "\<not> path_exists undo_disk [''gone.json'']"
    by (simp add: undo_disk_def disk_eval)
  have there: "lookup undo_disk [''undo.json''] = Some (File ?i) \<and> operations ?i = Some moved_ops"
    by (simp add: undo_disk_def disk_eval)
  have pb: "Path (dst ?b) = [''dest'', ''Others'', ''b.txt'']"
    and pa: "Path (dst ?a) = [''dest'', ''Others'', ''a.txt'']"
    and sa: "Path (src ?a) = [''src'', ''a.txt'']"
    by (simp_all add: path_eval)
  have missing: "\<not> path_exists undo_disk (Path (dst ?b))"
    unfolding pb by (simp add: undo_disk_def disk_eval)
  have present: "path_exists undo_disk (Path (dst ?a))"
    unfolding pa by (simp add: undo_disk_def disk_eval)
  have made: "ensure_dir (path_parent (Path (src ?a))) undo_disk = Inr undo_disk"
    unfolding sa by code_simp
  have name: "next_nonconflicting_name undo_disk (Path (src ?a)) = [''src'', ''a.txt'']"
    unfolding sa by (simp add: next_nonconflicting_name_def undo_disk_def disk_eval)
  have outside: "\<not> prefix (Path (dst ?a)) (next_nonconflicting_name undo_disk (Path (src ?a)))"
    unfolding name pa by simp
  have held: "lookup undo_disk [''dest'', ''Others'', ''a.txt''] = Some (plain_file 5 0 ''c0ffee'')"
    by (simp add: undo_disk_def disk_eval)
  have r: "rev moved_ops = [?b, ?a]"
    by (simp add: moved_ops_def)
  note t = undo_skips_missing [where disk = undo_disk]
  have one: "fst (undo [''gone.json''] undo_disk) = Inl FileNotFoundError"
    using t [where m = "[''gone.json'']", THEN conjunct1] gone by simp
  from t [where m = "[''undo.json'']" and i = ?i and ops = moved_ops,
      THEN conjunct2, THEN conjunct1, THEN mp, OF there]
  obtain x disk' undone lg where
    "undo [''undo.json''] undo_disk
       = ((case x of None \<Rightarrow> Inr undone | Some e \<Rightarrow> Inl e), disk', lg)"
    "map undo_source lg = map (\<lambda>r. Some (Path (dst r))) (take (length lg) (rev moved_ops))"
    by blast
  with run have two: "map undo_source [MissingForUndo [''dest'', ''Others'', ''b.txt''],
          Undone [''dest'', ''Others'', ''a.txt''] [''src'', ''a.txt'']]
       = map (\<lambda>r. Some (Path (dst r))) (rev moved_ops)"
    by (simp add: r)
  from t [where r = ?b and rest = "[?a]" and restored = "[]" and earlier = "[]",
      THEN conjunct2, THEN conjunct2, THEN conjunct2, THEN conjunct1, THEN mp, OF missing]
  have three: "undo_loop (rev moved_ops) (undo_disk, [], [])
       = undo_loop [?a] (undo_disk, [], [MissingForUndo [''dest'', ''Others'', ''b.txt'']])"
    unfolding r pb by (simp only: append_Nil)
  from t [where r = ?a and ?disk1.0 = undo_disk,
      THEN conjunct2, THEN conjunct2, THEN conjunct2, THEN conjunct2, THEN mp,
      OF conjI [OF present conjI [OF made outside]], THEN conjunct2]
  have four: "lookup (rename_entries [''dest'', ''Others'', ''a.txt''] [''src'', ''a.txt''] undo_disk)
         [''src'', ''a.txt''] = Some (plain_file 5 0 ''c0ffee'')"
    unfolding name pa held .
  show ?thesis
    by (rule conjI [OF run conjI [OF two conjI [OF three conjI [OF four one]]]])
qed

subsection \<open>Validation before the walk\<close>

text \<open>What holds of the three checks: when nothing exists at the source path, or the
  destination is inside the source or equal to it, \<^verbatim>\<open>organize\<close> returns the exception
  with the disk as it was and nothing logged.\<close>

lemma organize_rejects_before_walk:
  "(\<not> path_exists disk s \<longrightarrow>
      organize E s d rules mode dry_run m disk = (Inl FileNotFoundError, disk, []))
   \<and> (path_exists disk s \<and> (within_dir d s \<or> resolve s = resolve d) \<longrightarrow>
      organize E s d rules mode dry_run m disk = (Inl (RuntimeError inside_source), disk, []))"
  by (auto simp: organize_def within_dir_def)

text \<open>
  Claim C6 says that a source directory that does not exist gives the not-found error,
  with nothing recorded and no manifest written.  The code tests
  \<^verbatim>\<open>src_root.exists()\<close>, which a regular file passes, although its message reads
  \<^verbatim>\<open>Source folder not found\<close>: with the path of a file as the source there is no source
  directory, and \<^verbatim>\<open>organize\<close> walks nothing, returns the empty list and writes the
  manifest.
\<close>

theorem regular_file_accepted_as_source:
  "\<not> is_dir photo_disk [''src'', ''photo.jpg'']
   \<and> organize demo_env [''src'', ''photo.jpg''] [''dest''] default_rules ''move'' False
        (Some [''undo.json'']) photo_disk =
       (Inr [],
        [([''src''], Dir),
         ([''src'', ''photo.jpg''], plain_file 2048 1748736000 ''ab12''),
         ([''undo.json''],
          File \<lparr>st_size = 2, st_mtime = 0, sha256 = ''m'', operations = Some []\<rparr>)],
        [ManifestSaved [''undo.json'']])"
  by code_simp

subsection \<open>The conflict-free name\<close>

text \<open>
  Claim C7.  A path that is free is returned unchanged.  A path that is taken gives the
  candidate \<^verbatim>\<open>parent / f"{stem}({n}){suffix}"\<close> with the least counter \<open>n \<ge> 1\<close> whose
  candidate is free.  The result is a function of the disk and the path alone, so two calls
  on one disk agree; and once the first candidate has been created on a disk where the
  second one is free, the next call returns the second.
\<close>

theorem next_nonconflicting_name_least_free:
  "(\<not> path_exists disk p \<longrightarrow> next_nonconflicting_name disk p = p)
   \<and> (path_exists disk p \<longrightarrow>
        (\<exists>n\<ge>1. next_nonconflicting_name disk p = candidate p n
           \<and> candidate p n =
               join (path_parent p) (path_stem p @ ''('' @ digits n @ '')'' @ path_suffix p)
           \<and> \<not> path_exists disk (candidate p n)
           \<and> (\<forall>k. 1 \<le> k \<and> k < n \<longrightarrow> path_exists disk (candidate p k))))
   \<and> (path_exists disk p \<and> \<not> path_exists disk (candidate p 1)
        \<and> \<not> path_exists disk (candidate p 2) \<longrightarrow>
        next_nonconflicting_name disk p = candidate p 1
        \<and> next_nonconflicting_name (put_entry (candidate p 1) nd disk) p = candidate p 2)"
proof (intro conjI impI)
  assume "\<not> path_exists disk p"
  then show "next_nonconflicting_name disk p = p"
    by (simp add: next_nonconflicting_name_def)
next
  assume "path_exists disk p"
  then have "next_nonconflicting_name disk p = next_name_loop disk p 1"
    by (simp add: next_nonconflicting_name_def)
  with next_name_loop_smallest [of 1 disk p]
  show "\<exists>n\<ge>1. next_nonconflicting_name disk p = candidate p n
           \<and> candidate p n =
               join (path_parent p) (path_stem p @ ''('' @ digits n @ '')'' @ path_suffix p)
           \<and> \<not> path_exists disk (candidate p n)
           \<and> (\<forall>k. 1 \<le> k \<and> k < n \<longrightarrow> path_exists disk (candidate p k))"
    by (simp add: candidate_def counter_name_def)
next
  assume a: "path_exists disk p \<and> \<not> path_exists disk (candidate p 1)
        \<and> \<not> path_exists disk (candidate p 2)"
  then have "next_name_loop disk p 1 = candidate p 1"
    by (intro next_name_loop_free) simp
  with a show "next_nonconflicting_name disk p = candidate p 1"
    by (simp add: next_nonconflicting_name_def)
next
  assume a: "path_exists disk p \<and> \<not> path_exists disk (candidate p 1)
        \<and> \<not> path_exists disk (candidate p 2)"
  let ?d = "put_entry (candidate p 1) nd disk"
  have ne: "candidate p 2 \<noteq> candidate p 1"
    using candidate_inj [of p 2 1] by auto
  have ex: "path_exists ?d p" "path_exists ?d (candidate p 1)"
    "\<not> path_exists ?d (candidate p 2)"
    using a ne by (simp_all add: path_exists_put_entry)
  have two: "Suc 1 = 2" by simp
  have "next_name_loop ?d p 1 = next_name_loop ?d p (Suc 1)"
    using ex(2) by (rule next_name_loop_taken)
  also have "\<dots> = candidate p 2"
    unfolding two using ex(3) by (rule next_name_loop_free)
  finally show "next_nonconflicting_name ?d p = candidate p 2"
    using ex(1) by (simp add: next_nonconflicting_name_def)
qed

theorem next_nonconflicting_name_least_free_witness:
  "next_nonconflicting_name taken_disk [''dest'', ''b.txt''] = [''dest'', ''b.txt'']
   \<and> next_nonconflicting_name taken_disk [''dest'', ''a.txt''] = [''dest'', ''a(1).txt'']
   \<and> next_nonconflicting_name
         (put_entry [''dest'', ''a(1).txt''] (plain_file 3 0 ''d1'') taken_disk)
         [''dest'', ''a.txt''] = [''dest'', ''a(2).txt'']"
proof -
  let ?p = "[''dest'', ''a.txt'']"
  have c1: "candidate ?p 1 = [''dest'', ''a(1).txt'']"
    by (simp add: path_eval)
  have c2: "candidate ?p 2 = [''dest'', ''a(2).txt'']"
    by (simp add: path_eval)
  have free: "\<not> path_exists taken_disk [''dest'', ''b.txt'']"
    by (simp add: taken_disk_def disk_eval)
  have taken: "path_exists taken_disk ?p"
    by (simp add: taken_disk_def disk_eval)
  have f1: "\<not> path_exists taken_disk (candidate ?p 1)"
    unfolding c1 by (simp add: taken_disk_def disk_eval)
  have f2: "\<not> path_exists taken_disk (candidate ?p 2)"
    unfolding c2 by (simp add: taken_disk_def disk_eval)
  from next_nonconflicting_name_least_free [of taken_disk "[''dest'', ''b.txt'']"] free
  have a: "next_nonconflicting_name taken_disk [''dest'', ''b.txt''] = [''dest'', ''b.txt'']"
    by blast
  from next_nonconflicting_name_least_free [of taken_disk ?p "plain_file 3 0 ''d1''"]
    taken f1 f2
  have "next_nonconflicting_name taken_disk ?p = candidate ?p 1
        \<and> next_nonconflicting_name
             (put_entry (candidate ?p 1) (plain_file 3 0 ''d1'') taken_disk) ?p = candidate ?p 2"
    by blast
  with a show ?thesis unfolding c1 c2 by simp
qed

subsection \<open>Dry runs\<close>

text \<open>The actions that a dry run records, after the amended claim: going through the
  fingerprints of the walked files in order, a file gets the plan for the requested mode,
  except that under the duplicate action \<^verbatim>\<open>skip\<close> a file whose fingerprint was seen
  before it gets \<^verbatim>\<open>skip-duplicate\<close>.\<close>

fun dry_run_actions :: "string \<Rightarrow> string \<Rightarrow> string list \<Rightarrow> string list \<Rightarrow> string list" where
  "dry_run_actions dup mode seen [] = []"
| "dry_run_actions dup mode seen (h # hs) =
     (if dup = ''skip'' \<and> h \<in> set seen then ''skip-duplicate'' else plan_action mode)
       # dry_run_actions dup mode (h # seen) hs"

definition fingerprint :: "fs \<Rightarrow> path \<Rightarrow> string" where
  "fingerprint disk f = (case hash_file disk f of Inr h \<Rightarrow> h | Inl e \<Rightarrow> [])"

lemma place_file_dry_run:
  "place_file E rules mode True f h target st = (x, st') \<Longrightarrow>
   x = None \<and> files st' = files st
   \<and> dom (seen_hashes st') = insert h (dom (seen_hashes st))
   \<and> (\<exists>r. results st' = results st @ [r] \<and> src r = str f \<and> act r = plan_action mode)"
  by (auto simp: place_file_def Let_def)

lemma organize_file_dry_run:
  assumes "organize_file E d rules mode True f st = (x, st')"
    and "is_file (files st) f"
  shows "files st' = files st
         \<and> (x = None \<longrightarrow>
              dom (seen_hashes st') = insert (fingerprint (files st) f) (dom (seen_hashes st))
              \<and> (\<exists>r. results st' = results st @ [r] \<and> src r = str f
                   \<and> act r =
                       (if action (duplicates rules) = ''skip''
                           \<and> fingerprint (files st) f \<in> dom (seen_hashes st)
                        then ''skip-duplicate'' else plan_action mode)))"
proof -
  from assms(2) obtain i where i: "lookup (files st) f = Some (File i)"
    by (auto simp: is_file_def split: option.splits node.splits)
  then have nd: "\<not> is_dir (files st) f" and h: "hash_file (files st) f = Inr (sha256 i)"
    by (simp_all add: is_dir_def hash_file_def stat_def)
  then have fp: "fingerprint (files st) f = sha256 i"
    by (simp add: fingerprint_def)
  show ?thesis
  proof (cases "compute_destination E (files st) f d rules")
    case (Inl e)
    with assms(1) nd show ?thesis by (auto simp: organize_file_def)
  next
    case (Inr target)
    show ?thesis
    proof (cases "seen_hashes st (sha256 i)")
      case None
      with assms(1) nd h Inr
      have "place_file E rules mode True f (sha256 i) target st = (x, st')"
        by (simp add: organize_file_def)
      from place_file_dry_run [OF this] None show ?thesis
        unfolding fp by (auto simp: dom_def)
    next
      case (Some seen)
      show ?thesis
      proof (cases "action (duplicates rules) = ''skip''")
        case True
        with assms(1) nd h Inr Some show ?thesis
          unfolding fp by (auto simp: organize_file_def)
      next
        case False
        with assms(1) nd h Inr Some
        have "place_file E rules mode True f (sha256 i)
                (duplicate_destination d rules f seen target) st = (x, st')"
          by (simp add: organize_file_def)
        from place_file_dry_run [OF this] False show ?thesis
          unfolding fp by auto
      qed
    qed
  qed
qed

lemma organize_loop_dry_run:
  assumes "organize_loop E d rules mode True fs st = (x, st')"
    and "list_all (is_file (files st)) fs"
    and "dom (seen_hashes st) = set seen"
  shows "files st' = files st
         \<and> (x = None \<longrightarrow>
              map src (results st') = map src (results st) @ map str fs
              \<and> map act (results st') = map act (results st)
                   @ dry_run_actions (action (duplicates rules)) mode seen
                       (map (fingerprint (files st)) fs))"
  using assms
proof (induction fs arbitrary: st seen)
  case Nil
  then show ?case by simp
next
  case (Cons f fs)
  obtain y st1 where step: "organize_file E d rules mode True f st = (y, st1)"
    by (cases "organize_file E d rules mode True f st")
  from Cons.prems(2) have isf: "is_file (files st) f" by simp
  note one = organize_file_dry_run [OF step isf]
  show ?case
  proof (cases y)
    case (Some e)
    with step Cons.prems(1) one show ?thesis by auto
  next
    case None
    with step Cons.prems(1)
    have rest: "organize_loop E d rules mode True fs st1 = (x, st')" by simp
    from one None obtain r where r: "results st1 = results st @ [r]" "src r = str f"
      "act r = (if action (duplicates rules) = ''skip''
                   \<and> fingerprint (files st) f \<in> dom (seen_hashes st)
                then ''skip-duplicate'' else plan_action mode)"
      and dm: "dom (seen_hashes st1) = insert (fingerprint (files st) f) (dom (seen_hashes st))"
      by blast
    have same: "files st1 = files st" using one by simp
    have a: "list_all (is_file (files st1)) fs"
      using Cons.prems(2) same by simp
    have b: "dom (seen_hashes st1) = set (fingerprint (files st) f # seen)"
      using dm Cons.prems(3) by simp
    from Cons.IH [OF rest a b] same r Cons.prems(3) show ?thesis
      by simp
  qed
qed

lemma walk_files_are_files:
  "list_all (is_file disk) (walk_files disk s excl hid)"
  by (simp add: walk_files_def list_all_iff)

text \<open>
  Claim C8, amended.  A dry run leaves the disk as it was: no file is moved, copied or
  linked, no directory is created and no manifest is written.  When it completes it records
  one result per walked file, in the order of the walk; each is the plan for the requested
  mode, except that under the duplicate action \<^verbatim>\<open>skip\<close> a file whose content was already
  seen is recorded as \<^verbatim>\<open>skip-duplicate\<close>.
\<close>

theorem organize_dry_run:
  assumes "organize E s d rules mode True m disk = (r, disk', lg)"
  shows "disk' = disk
         \<and> (\<forall>res. r = Inr res \<longrightarrow>
               map src res = map str (walk_files disk s (exclude_dirs rules) (exclude_hidden rules))
               \<and> map act res =
                   dry_run_actions (action (duplicates rules)) mode []
                     (map (fingerprint disk)
                        (walk_files disk s (exclude_dirs rules) (exclude_hidden rules))))
         \<and> plan_action mode =
             (if mode = ''move'' then ''plan-move''
              else if mode = ''copy'' then ''plan-copy'' else ''plan-hardlink'')"
proof -
  let ?st = "\<lparr>files = disk, seen_hashes = Map.empty, results = [], logged = []\<rparr>"
  let ?fs = "walk_files disk s (exclude_dirs rules) (exclude_hidden rules)"
  obtain x st' where l: "organize_loop E d rules mode True ?fs ?st = (x, st')"
    by (cases "organize_loop E d rules mode True ?fs ?st")
  have fl: "list_all (is_file (files ?st)) ?fs"
    using walk_files_are_files [of disk s] by simp
  have "dom (seen_hashes ?st) = set []" by simp
  from organize_loop_dry_run [OF l fl this]
  have inv: "files st' = disk"
    "x = None \<longrightarrow> map src (results st') = map str ?fs
       \<and> map act (results st') =
           dry_run_actions (action (duplicates rules)) mode [] (map (fingerprint disk) ?fs)"
    by simp_all
  from assms l inv show ?thesis
    by (auto simp: organize_def plan_action_def split: if_splits option.splits)
qed

theorem organize_dry_run_witness:
  "organize demo_env [''src''] [''dest''] default_rules ''copy'' True (Some [''undo.json''])
     triple_disk =
     (Inr [\<lparr>src = ''/src/a.txt'', dst = ''/dest/Others/a.txt'', act = ''plan-copy''\<rparr>,
           \<lparr>src = ''/src/b.txt'', dst = ''/dest/Duplicates/b.txt'', act = ''plan-copy''\<rparr>,
           \<lparr>src = ''/src/c.txt'', dst = ''/dest/Duplicates/c.txt'', act = ''plan-copy''\<rparr>],
      triple_disk,
      [Planned ''plan-copy'' [''src'', ''a.txt''] [''dest'', ''Others'', ''a.txt''],
       Planned ''plan-copy'' [''src'', ''b.txt''] [''dest'', ''Duplicates'', ''b.txt''],
       Planned ''plan-copy'' [''src'', ''c.txt''] [''dest'', ''Duplicates'', ''c.txt'']])
   \<and> map act [\<lparr>src = ''/src/a.txt'', dst = ''/dest/Others/a.txt'', act = ''plan-copy''\<rparr>,
           \<lparr>src = ''/src/b.txt'', dst = ''/dest/Duplicates/b.txt'', act = ''plan-copy''\<rparr>,
           \<lparr>src = ''/src/c.txt'', dst = ''/dest/Duplicates/c.txt'', act = ''plan-copy''\<rparr>]
       = dry_run_actions (action (duplicates default_rules)) ''copy'' []
           (map (fingerprint triple_disk)
              (walk_files triple_disk [''src''] (exclude_dirs default_rules)
                 (exclude_hidden default_rules)))"
proof -
  have run: "organize demo_env [''src''] [''dest''] default_rules ''copy'' True
     (Some [''undo.json'']) triple_disk =
     (Inr [\<lparr>src = ''/src/a.txt'', dst = ''/dest/Others/a.txt'', act = ''plan-copy''\<rparr>,
           \<lparr>src = ''/src/b.txt'', dst = ''/dest/Duplicates/b.txt'', act = ''plan-copy''\<rparr>,
           \<lparr>src = ''/src/c.txt'', dst = ''/dest/Duplicates/c.txt'', act = ''plan-copy''\<rparr>],
      triple_disk,
      [Planned ''plan-copy'' [''src'', ''a.txt''] [''dest'', ''Others'', ''a.txt''],
       Planned ''plan-copy'' [''src'', ''b.txt''] [''dest'', ''Duplicates'', ''b.txt''],
       Planned ''plan-copy'' [''src'', ''c.txt''] [''dest'', ''Duplicates'', ''c.txt'']])"
    by code_simp
  from organize_dry_run [OF run] run show ?thesis by blast
qed

text \<open>The claim as it was stated fails under the duplicate action \<^verbatim>\<open>skip\<close>: the second and
  the third of three equal files get no plan.\<close>

theorem organize_dry_run_counterexample:
  "fst (organize demo_env [''src''] [''dest''] skip_rules ''move'' True None triple_disk) =
     Inr [\<lparr>src = ''/src/a.txt'', dst = ''/dest/Others/a.txt'', act = ''plan-move''\<rparr>,
          \<lparr>src = ''/src/b.txt'', dst = '''', act = ''skip-duplicate''\<rparr>,
          \<lparr>src = ''/src/c.txt'', dst = '''', act = ''skip-duplicate''\<rparr>]"
  by code_simp

subsection \<open>Size buckets\<close>

text \<open>What the specification says of one bucket: it matches a size when it names a folder
  and its bound, if it has one, is at least the size in megabytes.  (An entry without a
  folder is passed over by the code.)  Next to it, what the code tests: the same, with
  the quotient that the float division returns.\<close>

definition bucket_matches :: "nat \<Rightarrow> bucket \<Rightarrow> bool" where
  "bucket_matches size_bytes b =
     (bucket_folder b \<noteq> None
      \<and> (case max_mb b of None \<Rightarrow> True | Some m \<Rightarrow> real size_bytes / 1048576 \<le> m))"

definition bucket_takes :: "nat \<Rightarrow> bucket \<Rightarrow> bool" where
  "bucket_takes size_bytes b =
     (bucket_folder b \<noteq> None
      \<and> (case max_mb b of None \<Rightarrow> True | Some m \<Rightarrow> true_div_mb size_bytes \<le> m))"

definition huge_rules :: Rules where
  "huge_rules = default_rules\<lparr>size_buckets :=
     [\<lparr>max_mb = Some 8589934592, bucket_folder = Some ''Huge''\<rparr>]\<rparr>"

definition sized_rules :: Rules where
  "sized_rules = default_rules\<lparr>size_buckets :=
     [\<lparr>max_mb = Some 0, bucket_folder = Some ''Empty''\<rparr>,
      \<lparr>max_mb = Some 1, bucket_folder = Some ''Small''\<rparr>,
      \<lparr>max_mb = None, bucket_folder = Some ''Large''\<rparr>]\<rparr>"

lemma bit_length_bound: "n < 2 ^ k \<Longrightarrow> bit_length n \<le> k"
proof (induction k arbitrary: n)
  case 0
  then show ?case by (simp add: bit_length.simps)
next
  case (Suc k)
  show ?case
  proof (cases "n = 0")
    case True
    then show ?thesis by (simp add: bit_length.simps)
  next
    case False
    from Suc.prems have "n div 2 < 2 ^ k" by auto
    from Suc.IH [OF this] False show ?thesis
      by (subst bit_length.simps) simp
  qed
qed

lemma bit_length_power: "n \<noteq> 0 \<Longrightarrow> 2 ^ (bit_length n - 1) \<le> n"
proof (induction n rule: bit_length.induct)
  case (1 n)
  have bl: "bit_length n = Suc (bit_length (n div 2))"
    using 1(2) by (subst bit_length.simps) simp
  show ?case
  proof (cases "n div 2 = 0")
    case True
    then have "bit_length (n div 2) = 0" by (simp add: bit_length.simps)
    with bl 1(2) show ?thesis by simp
  next
    case False
    from 1(1) [OF 1(2) False] have ih: "2 ^ (bit_length (n div 2) - 1) \<le> n div 2" .
    from False have "bit_length (n div 2) \<noteq> 0"
      by (subst bit_length.simps) simp
    then have "(2::nat) ^ bit_length (n div 2) = 2 * 2 ^ (bit_length (n div 2) - 1)"
      by (cases "bit_length (n div 2)") simp_all
    also have "\<dots> \<le> 2 * (n div 2)" using ih by simp
    also have "\<dots> \<le> n" by simp
    finally show ?thesis using bl by simp
  qed
qed

lemma round_to_double_small: "n < 2 ^ 53 \<Longrightarrow> round_to_double n = n"
  using bit_length_bound [of n 53] by (simp add: round_to_double_def Let_def)

lemma round_to_double_positive: "0 < n \<Longrightarrow> 0 < round_to_double n"
proof -
  assume pos: "0 < n"
  let ?e = "bit_length n - 53"
  have "(2::nat) ^ ?e \<le> 2 ^ (bit_length n - 1)"
    by (rule power_increasing) simp_all
  also have "\<dots> \<le> n" using pos by (intro bit_length_power) simp
  finally have "1 \<le> n div 2 ^ ?e"
    by (simp add: div_greater_zero_iff Suc_le_eq)
  then have "0 < n div 2 ^ ?e * 2 ^ ?e" "0 < (n div 2 ^ ?e + 1) * 2 ^ ?e" by simp_all
  with pos show ?thesis by (simp add: round_to_double_def Let_def)
qed

lemma true_div_mb_small: "n < 2 ^ 53 \<Longrightarrow> true_div_mb n = real n / 1048576"
  by (simp add: true_div_mb_def round_to_double_small)

lemma true_div_mb_zero: "true_div_mb n \<le> 0 \<longleftrightarrow> n = 0"
proof (cases "n = 0")
  case True
  then show ?thesis by (simp add: true_div_mb_def round_to_double_small)
next
  case False
  then have "0 < round_to_double n" by (intro round_to_double_positive) simp
  with False show ?thesis by (simp add: true_div_mb_def divide_le_0_iff)
qed

lemma bucket_loop_find:
  "bucket_loop (true_div_mb n) bs =
     (case find (bucket_takes n) bs of None \<Rightarrow> None | Some b \<Rightarrow> bucket_folder b)"
  by (induction bs) (auto simp: bucket_takes_def split: option.splits)

lemma match_size_bucket_find:
  "match_size_bucket rules n =
     (case find (bucket_takes n) (size_buckets rules) of
        None \<Rightarrow> None | Some b \<Rightarrow> bucket_folder b)"
  by (cases "size_buckets rules = []") (simp_all add: match_size_bucket_def bucket_loop_find)

lemma bucket_takes_small:
  assumes "n < 2 ^ 53"
  shows "bucket_takes n = bucket_matches n"
proof (rule ext)
  fix b
  show "bucket_takes n b = bucket_matches n b"
    unfolding bucket_takes_def bucket_matches_def true_div_mb_small [OF assms] ..
qed

text \<open>
  Claim C9, amended.  The buckets are tried in declared order and the first one that
  matches gives the folder.  A bucket with a folder and \<^verbatim>\<open>max_mb\<close> equal to 0 matches
  exactly the files of zero bytes.  For a file smaller than \<open>2\<^sup>5\<^sup>3\<close> bytes, a bucket with a
  folder and a numeric \<^verbatim>\<open>max_mb\<close> matches exactly when the size divided by 1048576 is at
  most \<^verbatim>\<open>max_mb\<close>, which the code confirms on a list holding that bucket alone; from
  \<open>2\<^sup>5\<^sup>3\<close> bytes on, the code compares the quotient rounded to a double.
\<close>

theorem match_size_bucket_first_match:
  "match_size_bucket rules n =
     (case find (bucket_takes n) (size_buckets rules) of
        None \<Rightarrow> None | Some b \<Rightarrow> bucket_folder b)
   \<and> (n < 2 ^ 53 \<longrightarrow>
        match_size_bucket rules n =
          (case find (bucket_matches n) (size_buckets rules) of
             None \<Rightarrow> None | Some b \<Rightarrow> bucket_folder b))
   \<and> (n < 2 ^ 53 \<and> bucket_folder b = Some fld \<and> max_mb b = Some m \<longrightarrow>
        (bucket_matches n b \<longleftrightarrow> real n / 1048576 \<le> m)
        \<and> (match_size_bucket (rules\<lparr>size_buckets := [b]\<rparr>) n = Some fld
             \<longleftrightarrow> real n / 1048576 \<le> m))
   \<and> (bucket_folder b = Some fld \<and> max_mb b = Some 0 \<longrightarrow>
        (bucket_matches n b \<longleftrightarrow> n = 0)
        \<and> (match_size_bucket (rules\<lparr>size_buckets := [b]\<rparr>) n = Some fld \<longleftrightarrow> n = 0))"
proof (intro conjI impI)
  show "match_size_bucket rules n =
     (case find (bucket_takes n) (size_buckets rules) of
        None \<Rightarrow> None | Some b \<Rightarrow> bucket_folder b)"
    by (rule match_size_bucket_find)
next
  assume "n < 2 ^ 53"
  then have "bucket_takes n = bucket_matches n" by (rule bucket_takes_small)
  then show "match_size_bucket rules n =
          (case find (bucket_matches n) (size_buckets rules) of
             None \<Rightarrow> None | Some b \<Rightarrow> bucket_folder b)"
    by (simp add: match_size_bucket_find)
next
  assume "n < 2 ^ 53 \<and> bucket_folder b = Some fld \<and> max_mb b = Some m"
  then show "bucket_matches n b \<longleftrightarrow> real n / 1048576 \<le> m"
    by (simp add: bucket_matches_def)
next
  assume a: "n < 2 ^ 53 \<and> bucket_folder b = Some fld \<and> max_mb b = Some m"
  then have "true_div_mb n = real n / 1048576" by (intro true_div_mb_small) simp
  with a show "match_size_bucket (rules\<lparr>size_buckets := [b]\<rparr>) n = Some fld
             \<longleftrightarrow> real n / 1048576 \<le> m"
    by (simp add: match_size_bucket_def)
next
  assume "bucket_folder b = Some fld \<and> max_mb b = Some 0"
  then show "bucket_matches n b \<longleftrightarrow> n = 0"
    by (simp add: bucket_matches_def)
next
  assume "bucket_folder b = Some fld \<and> max_mb b = Some 0"
  then show "match_size_bucket (rules\<lparr>size_buckets := [b]\<rparr>) n = Some fld \<longleftrightarrow> n = 0"
    by (simp add: match_size_bucket_def true_div_mb_zero)
qed

theorem match_size_bucket_first_match_witness:
  "match_size_bucket sized_rules 0 = Some ''Empty''
   \<and> match_size_bucket sized_rules 1 = Some ''Small''
   \<and> match_size_bucket sized_rules 1048576 = Some ''Small''
   \<and> match_size_bucket sized_rules 1048577 = Some ''Large''
   \<and> (match_size_bucket (sized_rules\<lparr>size_buckets :=
          [\<lparr>max_mb = Some 0, bucket_folder = Some ''Empty''\<rparr>]\<rparr>) 1 = Some ''Empty''
        \<longleftrightarrow> False)"
proof -
  let ?b = "\<lparr>max_mb = Some 0, bucket_folder = Some ''Empty''\<rparr>"
  have s: "size_buckets sized_rules =
     [?b, \<lparr>max_mb = Some 1, bucket_folder = Some ''Small''\<rparr>,
      \<lparr>max_mb = None, bucket_folder = Some ''Large''\<rparr>]"
    by (simp add: sized_rules_def)
  note order = match_size_bucket_first_match [where rules = sized_rules and b = ?b
      and fld = "''Empty''" and m = 0, THEN conjunct2, THEN conjunct1, THEN mp]
  have o0: "match_size_bucket sized_rules 0 =
      (case find (bucket_matches 0) (size_buckets sized_rules) of
         None \<Rightarrow> None | Some b \<Rightarrow> bucket_folder b)"
    by (rule order) simp
  have o1: "match_size_bucket sized_rules 1 =
      (case find (bucket_matches 1) (size_buckets sized_rules) of
         None \<Rightarrow> None | Some b \<Rightarrow> bucket_folder b)"
    by (rule order) simp
  have o2: "match_size_bucket sized_rules 1048576 =
      (case find (bucket_matches 1048576) (size_buckets sized_rules) of
         None \<Rightarrow> None | Some b \<Rightarrow> bucket_folder b)"
    by (rule order) simp
  have o3: "match_size_bucket sized_rules 1048577 =
      (case find (bucket_matches 1048577) (size_buckets sized_rules) of
         None \<Rightarrow> None | Some b \<Rightarrow> bucket_folder b)"
    by (rule order) simp
  have a: "match_size_bucket sized_rules 0 = Some ''Empty''"
    unfolding o0 s by (simp add: bucket_matches_def)
  have b: "match_size_bucket sized_rules 1 = Some ''Small''"
    unfolding o1 s by (simp add: bucket_matches_def)
  have c: "match_size_bucket sized_rules 1048576 = Some ''Small''"
    unfolding o2 s by (simp add: bucket_matches_def)
  have d: "match_size_bucket sized_rules 1048577 = Some ''Large''"
    unfolding o3 s by (simp add: bucket_matches_def)
  have e: "match_size_bucket (sized_rules\<lparr>size_buckets := [?b]\<rparr>) 1 = Some ''Empty''
        \<longleftrightarrow> False"
    using match_size_bucket_first_match [where rules = sized_rules and n = 1 and b = ?b
      and fld = "''Empty''", THEN conjunct2, THEN conjunct2, THEN conjunct2, THEN mp]
    by simp
  show ?thesis
    by (rule conjI [OF a conjI [OF b conjI [OF c conjI [OF d e]]]])
qed

text \<open>The claim as it was stated fails from \<open>2\<^sup>5\<^sup>3\<close> bytes on: a file of \<open>2\<^sup>5\<^sup>3 + 1\<close>
  bytes is more than 8589934592 megabytes, and the bucket with that bound takes it.\<close>

theorem match_size_bucket_first_match_counterexample:
  "match_size_bucket huge_rules 9007199254740993 = Some ''Huge''
   \<and> \<not> (real 9007199254740993 / 1048576 \<le> 8589934592)
   \<and> \<not> bucket_matches 9007199254740993
          \<lparr>max_mb = Some 8589934592, bucket_folder = Some ''Huge''\<rparr>"
proof -
  have "bit_length 9007199254740993 = 54"
    by (simp add: bit_length.simps)
  then have r: "round_to_double 9007199254740993 = 9007199254740992"
    by (simp add: round_to_double_def Let_def)
  have "match_size_bucket huge_rules 9007199254740993 = Some ''Huge''"
    by (simp add: match_size_bucket_def huge_rules_def true_div_mb_def r)
  then show ?thesis by (simp add: bucket_matches_def)
qed

subsection \<open>The second configuration check\<close>

text \<open>
  Claim C10.  Two paths that resolve to the same directory are within one another, so a
  run whose destination is its (existing) source stops at the first configuration check;
  the condition of the second check is false whenever it is evaluated, and no run ends
  with its message.
\<close>

theorem equality_check_unreachable:
  "(resolve a = resolve b \<longrightarrow> within_dir a b)
   \<and> (path_exists disk s \<and> resolve s = resolve d \<longrightarrow>
        fst (organize E s d rules mode dry_run m disk) = Inl (RuntimeError inside_source))
   \<and> (\<not> within_dir d s \<longrightarrow> resolve s \<noteq> resolve d)
   \<and> fst (organize E s d rules mode dry_run m disk) \<noteq> Inl (RuntimeError must_differ)"
proof (intro conjI impI)
  assume "resolve a = resolve b"
  then show "within_dir a b" by (simp add: within_dir_def)
next
  assume "path_exists disk s \<and> resolve s = resolve d"
  then show "fst (organize E s d rules mode dry_run m disk) = Inl (RuntimeError inside_source)"
    by (simp add: organize_def within_dir_def)
next
  assume "\<not> within_dir d s"
  then show "resolve s \<noteq> resolve d" by (auto simp: within_dir_def)
next
  have ne: "inside_source \<noteq> must_differ"
    by (simp add: inside_source_def must_differ_def)
  show "fst (organize E s d rules mode dry_run m disk) \<noteq> Inl (RuntimeError must_differ)"
  proof (cases "path_exists disk s")
    case False
    then show ?thesis by (simp add: organize_def)
  next
    case True
    show ?thesis
    proof (cases "within_dir d s")
      case w: True
      with True ne show ?thesis by (simp add: organize_def)
    next
      case w: False
      then have r: "resolve s \<noteq> resolve d" by (auto simp: within_dir_def)
      obtain x st where l: "organize_loop E d rules mode dry_run
               (walk_files disk s (exclude_dirs rules) (exclude_hidden rules))
               \<lparr>files = disk, seen_hashes = Map.empty, results = [], logged = []\<rparr> = (x, st)"
        by (cases "organize_loop E d rules mode dry_run
               (walk_files disk s (exclude_dirs rules) (exclude_hidden rules))
               \<lparr>files = disk, seen_hashes = Map.empty, results = [], logged = []\<rparr>")
      show ?thesis
      proof (cases x)
        case None
        with True w r l show ?thesis
          by (auto simp: organize_def Let_def split: option.splits sum.splits
              dest: ensure_dir_error)
      next
        case (Some e)
        with l have "e \<noteq> RuntimeError must_differ" using organize_loop_error by blast
        with True w r l Some show ?thesis by (simp add: organize_def)
      qed
    qed
  qed
qed

theorem equality_check_unreachable_witness:
  "within_dir [''src''] [''src'']
   \<and> fst (organize demo_env [''src''] [''src''] default_rules ''move'' False None photo_disk)
       = Inl (RuntimeError inside_source)
   \<and> fst (organize demo_env [''src''] [''src''] default_rules ''move'' False None photo_disk)
       \<noteq> Inl (RuntimeError must_differ)"
proof -
  have b: "path_exists photo_disk [''src'']"
    by (simp add: photo_disk_def disk_eval)
  have e: "resolve [''src''] = resolve [''src'']" by simp
  from equality_check_unreachable [where a = "[''src'']" and b = "[''src'']"
      and disk = photo_disk and s = "[''src'']" and d = "[''src'']" and E = demo_env
      and rules = default_rules and mode = "''move''" and dry_run = False and m = None] b e
  show ?thesis by blast
qed

end
